theory Spec2Isabelle
  imports Complex_Main
begin

section \<open>The section-snapping vertical scroller (assets/js/vertical-nav.js)\<close>

subsection \<open>DOM nodes and \<open>getCount\<close>\<close>

text \<open>
  A DOM node as far as \<open>getCount\<close> looks at it: its \<open>nodeType\<close> (1 element, 3 text,
  8 comment, ...) and its \<open>childNodes\<close>.
\<close>

datatype node = Node (nodeType: nat) (childNodes: "node list")

text \<open>
  \<^verbatim>\<open>
  window.getCount = function(parent, getChildrensChildren) {
      let relevantChildren = 0;
      const children = parent.childNodes.length;
      for (let i = 0; i < children; i++) {
          if (parent.childNodes[i].nodeType !== 3) {
              if (getChildrensChildren) {
                  relevantChildren += getCount(parent.childNodes[i], true);
              }
              relevantChildren++;
          }
      }
      return relevantChildren;
  };
  \<close>
  The \<open>for\<close> loop over the child list is \<open>getCount_loop\<close>, with \<open>relevantChildren\<close> as
  its accumulator.
\<close>

fun getCount :: "node \<Rightarrow> bool \<Rightarrow> nat"
  and getCount_loop :: "node list \<Rightarrow> bool \<Rightarrow> nat \<Rightarrow> nat" where
  "getCount (Node ty cs) getChildrensChildren = getCount_loop cs getChildrensChildren 0"
| "getCount_loop [] getChildrensChildren relevantChildren = relevantChildren"
| "getCount_loop (c # cs) getChildrensChildren relevantChildren =
     (if nodeType c \<noteq> 3 then
        getCount_loop cs getChildrensChildren
          ((if getChildrensChildren then relevantChildren + getCount c True
            else relevantChildren) + 1)
      else getCount_loop cs getChildrensChildren relevantChildren)"

text \<open>What the documentation of \<open>getCount\<close> promises: the number of element children.\<close>

definition elementChildren :: "node \<Rightarrow> nat" where
  "elementChildren parent = length (filter (\<lambda>c. nodeType c = 1) (childNodes parent))"

subsection \<open>JavaScript numbers\<close>

text \<open>
  A JavaScript number is an IEEE 754 binary64 value. The finite ones are rationals, and every
  arithmetic operator returns the exact result rounded to the nearest representable value,
  ties to the even significand. \<open>roundToDouble\<close> is that rounding: \<open>ilog2\<close> finds the
  binary exponent, clamped at \<open>-1022\<close> for the subnormal range, and the significand is
  rounded to a multiple of \<open>2 powi (e - 52)\<close>. Overflow to \<open>Infinity\<close> (magnitudes from
  \<open>2 ^ 1024\<close>) and \<open>NaN\<close> are outside the model: the quantities of this script are pixel
  offsets, slide indices and millisecond clock readings, and its two divisors
  (\<open>slideCount\<close> on the path that divides, and \<open>SCROLL_DURATION\<close>) are never zero.
\<close>

type_synonym number = rat

function bitlen :: "int \<Rightarrow> int" where
  "bitlen n = (if 0 < n then bitlen (n div 2) + 1 else 0)"
  by pat_completeness auto
termination
  by (relation "measure nat") auto

declare bitlen.simps [simp del]

definition ilog2 :: "rat \<Rightarrow> int" where
  "ilog2 x = (case quotient_of x of (p, q) \<Rightarrow>
     (let g = bitlen p - bitlen q
      in if 2 powi g \<le> x then g else g - 1))"

definition roundHalfEven :: "rat \<Rightarrow> int" where
  "roundHalfEven m = (let f = \<lfloor>m\<rfloor>; d = m - of_int f
     in if d < 1 / 2 then f else if 1 / 2 < d then f + 1 else if even f then f else f + 1)"

definition roundToDouble :: "rat \<Rightarrow> number" where
  "roundToDouble x = (if x = 0 then 0
     else (let a = \<bar>x\<bar>; e = max (ilog2 a) (- 1022); u = 2 powi (e - 52)
           in sgn x * (of_int (roundHalfEven (a / u)) * u)))"

definition jsAdd :: "number \<Rightarrow> number \<Rightarrow> number" where
  "jsAdd a b = roundToDouble (a + b)"

definition jsSub :: "number \<Rightarrow> number \<Rightarrow> number" where
  "jsSub a b = roundToDouble (a - b)"

definition jsMul :: "number \<Rightarrow> number \<Rightarrow> number" where
  "jsMul a b = roundToDouble (a * b)"

definition jsDiv :: "number \<Rightarrow> number \<Rightarrow> number" where
  "jsDiv a b = roundToDouble (a / b)"

subsection \<open>Easing and the scroll duration\<close>

text \<open>
  \<^verbatim>\<open>
  const easingOutQuint = (x, t, b, c, d) =>
      c * ((t = t / d - 1) * t * t * t * t + 1) + b;
  const SCROLL_DURATION = 800;
  \<close>
  The assignment inside the product rebinds \<open>t\<close> before the four later reads of it.
\<close>

definition easingOutQuint :: "number \<Rightarrow> number \<Rightarrow> number \<Rightarrow> number \<Rightarrow> number \<Rightarrow> number" where
  "easingOutQuint x t b c d =
     (let t = jsSub (jsDiv t d) 1
      in jsAdd (jsMul c (jsAdd (jsMul (jsMul (jsMul (jsMul t t) t) t) t) 1)) b)"

definition SCROLL_DURATION :: number where
  "SCROLL_DURATION = 800"

subsection \<open>State of the page and of the running animations\<close>

text \<open>
  \<open>key\<close> is the property \<open>smoothScrollPolyfill\<close> animates; \<open>scrollToOption\<close> is the
  member of the options object handed to the native \<open>scrollTo\<close>. The only completion
  callback of the script is the closure of \<open>navigateToSlide\<close> that clears \<open>isScrolling\<close>.
\<close>

datatype key = ScrollTop | ScrollLeft

datatype scrollToOption = Top | Left

datatype callback = ReleaseLock

text \<open>
  One call of \<open>smoothScrollPolyfill\<close>: its parameters, its local constants
  \<open>startTime\<close>, \<open>offset\<close>, \<open>gap\<close>, its flag \<open>interrupt\<close>, whether its \<open>cancel\<close> listener
  is attached for \<open>wheel\<close> and for \<open>touchstart\<close>, and whether \<open>step\<close> is waiting in
  \<open>requestAnimationFrame\<close>.
\<close>

record anim =
  key :: key
  target :: number
  onComplete :: "callback option"
  startTime :: int
  offset :: number
  gap :: number
  interrupt :: bool
  listensWheel :: bool
  listensTouchstart :: bool
  frameRequested :: bool

text \<open>
  The variables of the \<open>DOMContentLoaded\<close> closure (\<open>currentSlideIndex\<close>,
  \<open>isScrolling\<close>), the \<open>aria-pressed\<close> attribute of each indicator in document order,
  the scroll container's \<open>scrollTop\<close>, \<open>scrollLeft\<close> and \<open>scrollHeight\<close>, the polyfill
  animations started so far (oldest first), the callbacks waiting in \<open>setTimeout\<close> and the
  smooth \<open>scrollTo\<close> requests handed to the browser. A write to \<open>scrollTop\<close> is kept as
  written; the browser's clamping of it is not part of the script.
\<close>

record state =
  currentSlideIndex :: int
  isScrolling :: bool
  ariaPressed :: "bool list"
  scrollTop :: number
  scrollLeft :: number
  scrollHeight :: int
  animations :: "anim list"
  timeouts :: "callback list"
  scrollToRequests :: "(scrollToOption \<times> number) list"

text \<open>The constants fixed at start-up: the feature probe and \<open>slideCount\<close>.\<close>

record env =
  hasNativeSmoothScroll :: bool
  slideCount :: int

definition readKey :: "key \<Rightarrow> state \<Rightarrow> number" where
  "readKey k s = (case k of ScrollTop \<Rightarrow> scrollTop s | ScrollLeft \<Rightarrow> scrollLeft s)"

definition writeKey :: "key \<Rightarrow> number \<Rightarrow> state \<Rightarrow> state" where
  "writeKey k v s = (case k of ScrollTop \<Rightarrow> s\<lparr>scrollTop := v\<rparr> | ScrollLeft \<Rightarrow> s\<lparr>scrollLeft := v\<rparr>)"

definition runCallback :: "callback \<Rightarrow> state \<Rightarrow> state" where
  "runCallback cb s = (case cb of ReleaseLock \<Rightarrow> s\<lparr>isScrolling := False\<rparr>)"

subsection \<open>The polyfill animation\<close>

text \<open>
  \<^verbatim>\<open>
  const cancel = () => { interrupt = true; cleanup(); };
  const cleanup = () => {
      node.removeEventListener('wheel', cancel);
      node.removeEventListener('touchstart', cancel);
  };
  \<close>
\<close>

definition cleanup :: "anim \<Rightarrow> anim" where
  "cleanup a = a\<lparr>listensWheel := False, listensTouchstart := False\<rparr>"

definition cancel :: "anim \<Rightarrow> anim" where
  "cancel a = cleanup (a\<lparr>interrupt := True\<rparr>)"

text \<open>
  \<^verbatim>\<open>
  const step = () => {
      const elapsed = Date.now() - startTime;
      const percentage = elapsed / SCROLL_DURATION;
      if (interrupt) return;
      if (percentage > 1) {
          node[key] = target;
          cleanup();
          if (onComplete) onComplete();
          return;
      }
      node[key] = easingOutQuint(0, elapsed, offset, gap, SCROLL_DURATION);
      requestAnimationFrame(step);
  };
  \<close>
  \<open>step k now s\<close> runs the \<open>step\<close> closure of the animation at position \<open>k\<close>, with
  \<open>now\<close> the value \<open>Date.now()\<close> returns. Clock readings are whole milliseconds, so their
  difference is exact.
\<close>

definition step :: "nat \<Rightarrow> int \<Rightarrow> state \<Rightarrow> state" where
  "step k now s =
     (let a = animations s ! k;
          elapsed = now - startTime a;
          percentage = jsDiv (of_int elapsed) SCROLL_DURATION
      in if interrupt a then s
         else if 1 < percentage then
           (let s1 = writeKey (key a) (target a) s;
                s2 = s1\<lparr>animations := (animations s1)[k := cleanup a]\<rparr>
            in case onComplete a of None \<Rightarrow> s2 | Some cb \<Rightarrow> runCallback cb s2)
         else
           (let s1 = writeKey (key a)
                       (easingOutQuint 0 (of_int elapsed) (offset a) (gap a) SCROLL_DURATION) s
            in s1\<lparr>animations := (animations s1)[k := a\<lparr>frameRequested := True\<rparr>]\<rparr>))"

text \<open>
  \<^verbatim>\<open>
  function smoothScrollPolyfill(node, key, target, onComplete) {
      const startTime = Date.now();
      const offset = node[key];
      const gap = target - offset;
      let interrupt = false;
      ...
      node.addEventListener('wheel', cancel, { passive: true });
      node.addEventListener('touchstart', cancel, { passive: true });
      step();
  }
  \<close>
  The node is always the scroll container. \<open>tStart\<close> is the clock reading taken for
  \<open>startTime\<close>, \<open>tStep\<close> the one the first, synchronous \<open>step()\<close> takes.
\<close>

definition smoothScrollPolyfill ::
  "key \<Rightarrow> number \<Rightarrow> callback option \<Rightarrow> int \<Rightarrow> int \<Rightarrow> state \<Rightarrow> state" where
  "smoothScrollPolyfill ky tgt cb tStart tStep s =
     (let off = readKey ky s;
          a = \<lparr>key = ky, target = tgt, onComplete = cb, startTime = tStart, offset = off,
               gap = jsSub tgt off, interrupt = False, listensWheel = True,
               listensTouchstart = True, frameRequested = False\<rparr>
      in step (length (animations s)) tStep (s\<lparr>animations := animations s @ [a]\<rparr>))"

text \<open>
  \<^verbatim>\<open>
  function smoothScroll(node, topOrLeft, isVertical, onComplete) {
      if (hasNativeSmoothScroll) {
          node.scrollTo({ [isVertical ? 'top' : 'left']: topOrLeft, behavior: 'smooth' });
          if (onComplete) { setTimeout(onComplete, SCROLL_DURATION); }
      } else {
          smoothScrollPolyfill(node, isVertical ? 'scrollTop' : 'scrollLeft', topOrLeft, onComplete);
      }
  }
  \<close>
\<close>

definition smoothScroll ::
  "env \<Rightarrow> number \<Rightarrow> bool \<Rightarrow> callback option \<Rightarrow> int \<Rightarrow> int \<Rightarrow> state \<Rightarrow> state" where
  "smoothScroll ev topOrLeft isVertical cb tStart tStep s =
     (if hasNativeSmoothScroll ev then
        (let s1 = s\<lparr>scrollToRequests :=
                     scrollToRequests s @ [(if isVertical then Top else Left, topOrLeft)]\<rparr>
         in case cb of None \<Rightarrow> s1 | Some c \<Rightarrow> s1\<lparr>timeouts := timeouts s1 @ [c]\<rparr>)
      else smoothScrollPolyfill (if isVertical then ScrollTop else ScrollLeft) topOrLeft cb tStart tStep s)"

subsection \<open>The navigation core\<close>

text \<open>
  \<^verbatim>\<open>
  function setAriaPressed(activeIndex) {
      indicators.forEach((indicator, i) => {
          indicator.setAttribute('aria-pressed', i === activeIndex);
      });
  }
  \<close>
\<close>

definition setAriaPressed :: "int \<Rightarrow> state \<Rightarrow> state" where
  "setAriaPressed activeIndex s =
     s\<lparr>ariaPressed := map (\<lambda>i. int i = activeIndex) [0..<length (ariaPressed s)]\<rparr>"

text \<open>
  \<^verbatim>\<open>
  const targetScrollTop = Math.floor(scroller.scrollHeight * (currentSlideIndex / slideCount));
  \<close>
  The quotient is rounded to a double, then the product is; \<open>Math.floor\<close> is exact.
\<close>

definition targetScrollTop :: "int \<Rightarrow> int \<Rightarrow> int \<Rightarrow> int" where
  "targetScrollTop h idx n = \<lfloor>jsMul (of_int h) (jsDiv (of_int idx) (of_int n))\<rfloor>"

text \<open>
  \<^verbatim>\<open>
  function navigateToSlide(index) {
      if (isScrolling || index < 0 || index >= slideCount) { return; }
      isScrolling = true;
      currentSlideIndex = index;
      setAriaPressed(currentSlideIndex);
      const targetScrollTop = ...;
      smoothScroll(scroller, targetScrollTop, true, () => { isScrolling = false; });
  }
  \<close>
  Every caller passes an integer: an indicator's position or \<open>currentSlideIndex \<plusminus> 1\<close>.
\<close>

definition navigateToSlide :: "env \<Rightarrow> int \<Rightarrow> int \<Rightarrow> int \<Rightarrow> state \<Rightarrow> state" where
  "navigateToSlide ev index tStart tStep s =
     (if isScrolling s \<or> index < 0 \<or> slideCount ev \<le> index then s
      else
        (let s1 = s\<lparr>isScrolling := True\<rparr>;
             s2 = s1\<lparr>currentSlideIndex := index\<rparr>;
             s3 = setAriaPressed (currentSlideIndex s2) s2
         in smoothScroll ev
              (of_int (targetScrollTop (scrollHeight s3) (currentSlideIndex s3) (slideCount ev)))
              True (Some ReleaseLock) tStart tStep s3))"

subsection \<open>The wheel listener\<close>

text \<open>
  What the listener reads of a wheel event: \<open>deltaY\<close>, and the chain \<open>e.target\<close>,
  \<open>e.target.parentElement\<close>, ... up to the root, where \<open>parentElement\<close> is \<open>null\<close>. An
  entry of the chain is the scroll container itself or another element, with its computed
  \<open>overflowY\<close>, its \<open>scrollTop\<close> and its integer \<open>clientHeight\<close> and \<open>scrollHeight\<close>.
\<close>

datatype pathElement =
  Scroller
| Element (overflowY: string) (elScrollTop: number) (elClientHeight: int) (elScrollHeight: int)

record wheelEvent =
  deltaY :: number
  targetChain :: "pathElement list"

text \<open>What a listener did with its event: \<open>preventDefault\<close>, and the \<open>navigateToSlide\<close> call.\<close>

record outcome =
  defaultPrevented :: bool
  navigateCalledWith :: "int option"

text \<open>
  \<^verbatim>\<open>
  while (currentElement && currentElement !== scroller) {
      const overflowY = window.getComputedStyle(currentElement).overflowY;
      const isScrollable = overflowY === 'auto' || overflowY === 'scroll';
      if (isScrollable) {
          const canScrollDown = currentElement.scrollTop + currentElement.clientHeight
                                  < currentElement.scrollHeight -1;
          const canScrollUp = currentElement.scrollTop > 0;
          if (scrollDirection > 0 && canScrollDown) { return; }
          if (scrollDirection < 0 && canScrollUp) { return; }
      }
      currentElement = currentElement.parentElement;
  }
  \<close>
  \<open>traverseParents\<close> is the loop; it is \<open>True\<close> when the loop leaves the listener through
  one of its two \<open>return\<close>s.
\<close>

fun traverseParents :: "int \<Rightarrow> pathElement list \<Rightarrow> bool" where
  "traverseParents scrollDirection [] = False"
| "traverseParents scrollDirection (Scroller # rest) = False"
| "traverseParents scrollDirection (Element ov st ch sh # rest) =
     (let isScrollable = (ov = ''auto'' \<or> ov = ''scroll'')
      in if isScrollable then
           (let canScrollDown = (jsAdd st (of_int ch) < jsSub (of_int sh) 1);
                canScrollUp = (0 < st)
            in if 0 < scrollDirection \<and> canScrollDown then True
               else if scrollDirection < 0 \<and> canScrollUp then True
               else traverseParents scrollDirection rest)
         else traverseParents scrollDirection rest)"

text \<open>
  \<^verbatim>\<open>
  scroller.addEventListener('wheel', (e) => {
      if (isScrolling) { e.preventDefault(); return; }
      const scrollDirection = e.deltaY > 0 ? 1 : -1;
      let currentElement = e.target;
      while ...
      e.preventDefault();
      const nextSlideIndex = currentSlideIndex + scrollDirection;
      navigateToSlide(nextSlideIndex);
  }, { passive: false });
  \<close>
\<close>

definition scrollDirectionOf :: "wheelEvent \<Rightarrow> int" where
  "scrollDirectionOf e = (if 0 < deltaY e then 1 else - 1)"

definition wheelListener :: "env \<Rightarrow> wheelEvent \<Rightarrow> int \<Rightarrow> int \<Rightarrow> state \<Rightarrow> outcome \<times> state" where
  "wheelListener ev e tStart tStep s =
     (if isScrolling s then (\<lparr>defaultPrevented = True, navigateCalledWith = None\<rparr>, s)
      else
        (let scrollDirection = scrollDirectionOf e
         in if traverseParents scrollDirection (targetChain e)
            then (\<lparr>defaultPrevented = False, navigateCalledWith = None\<rparr>, s)
            else
              (let nextSlideIndex = currentSlideIndex s + scrollDirection
               in (\<lparr>defaultPrevented = True, navigateCalledWith = Some nextSlideIndex\<rparr>,
                   navigateToSlide ev nextSlideIndex tStart tStep s))))"

subsection \<open>Events and start-up\<close>

text \<open>
  What the browser delivers to the script: a click on the indicator at a position, a wheel
  event that reaches the scroll container, a \<open>touchstart\<close> that reaches it, an animation
  frame, and the expiry of the oldest timer. \<open>Click\<close> and \<open>Wheel\<close> carry the two clock
  readings a started polyfill animation takes; \<open>AnimationFrame\<close> carries the reading of
  the \<open>step\<close> calls it runs.

  The container's own \<open>wheel\<close> listener was registered first, so it runs before the
  \<open>cancel\<close> listeners; a listener added while the event is dispatched is not called for
  that event, so only the animations that existed before are cancelled. The script has no
  \<open>touchstart\<close> listener but \<open>cancel\<close>. A frame runs the \<open>step\<close> of every animation that
  requested one, each at most once.
\<close>

text \<open>
  \<^verbatim>\<open>
  indicators.forEach((indicator, i) => {
      indicator.addEventListener('click', (e) => {
          e.preventDefault();
          e.stopPropagation();
          navigateToSlide(i);
      });
  });
  \<close>
  Of a click listener only the call of \<open>navigateToSlide\<close> acts on the state.
\<close>

datatype event =
  Click nat int int
| Wheel wheelEvent int int
| Touchstart
| AnimationFrame int
| TimeoutFired

definition clickListener :: "env \<Rightarrow> nat \<Rightarrow> int \<Rightarrow> int \<Rightarrow> state \<Rightarrow> state" where
  "clickListener ev i tStart tStep s = navigateToSlide ev (int i) tStart tStep s"

definition cancelOnWheel :: "nat \<Rightarrow> anim list \<Rightarrow> anim list" where
  "cancelOnWheel n as =
     map (\<lambda>a. if listensWheel a then cancel a else a) (take n as) @ drop n as"

definition cancelOnTouchstart :: "anim list \<Rightarrow> anim list" where
  "cancelOnTouchstart as = map (\<lambda>a. if listensTouchstart a then cancel a else a) as"

definition frameCallback :: "int \<Rightarrow> state \<Rightarrow> nat \<Rightarrow> state" where
  "frameCallback now s k =
     (if frameRequested (animations s ! k) then
        step k now
          (s\<lparr>animations := (animations s)[k := (animations s ! k)\<lparr>frameRequested := False\<rparr>]\<rparr>)
      else s)"

definition animationFrame :: "int \<Rightarrow> state \<Rightarrow> state" where
  "animationFrame now s = foldl (frameCallback now) s [0..<length (animations s)]"

definition timeoutFired :: "state \<Rightarrow> state" where
  "timeoutFired s =
     (case timeouts s of [] \<Rightarrow> s | cb # rest \<Rightarrow> runCallback cb (s\<lparr>timeouts := rest\<rparr>))"

fun dispatch :: "env \<Rightarrow> state \<Rightarrow> event \<Rightarrow> state" where
  "dispatch ev s (Click i tStart tStep) =
     (if i < length (ariaPressed s) then clickListener ev i tStart tStep s else s)"
| "dispatch ev s (Wheel e tStart tStep) =
     (let s1 = snd (wheelListener ev e tStart tStep s)
      in s1\<lparr>animations := cancelOnWheel (length (animations s)) (animations s1)\<rparr>)"
| "dispatch ev s Touchstart = s\<lparr>animations := cancelOnTouchstart (animations s)\<rparr>"
| "dispatch ev s (AnimationFrame now) = animationFrame now s"
| "dispatch ev s TimeoutFired = timeoutFired s"

definition run :: "env \<Rightarrow> event list \<Rightarrow> state \<Rightarrow> state" where
  "run ev evs s = foldl (dispatch ev) s evs"

text \<open>
  \<^verbatim>\<open>
  document.addEventListener('DOMContentLoaded', () => {
      const scroller = document.getElementById('vertical-slider');
      const indicators = document.querySelectorAll('.indicator-button');
      if (!scroller) { console.error(...); return; }
      const slideCount = getCount(scroller, false);
      let currentSlideIndex = 0;
      let isScrolling = false;
      ...
      setAriaLabels();
      setAriaPressed(0);
  });
  \<close>
  The page as the script finds it: the scroll container, if there is one, with its scroll
  position and height, and the number of indicator buttons. Without a container nothing is
  set up. The \<open>aria-label\<close> texts play no part in navigation and are left out.
\<close>

record page =
  scroller :: "node option"
  indicatorCount :: nat
  pageScrollTop :: number
  pageScrollLeft :: number
  pageScrollHeight :: int

definition DOMContentLoaded :: "bool \<Rightarrow> page \<Rightarrow> (env \<times> state) option" where
  "DOMContentLoaded native pg =
     (case scroller pg of
        None \<Rightarrow> None
      | Some sc \<Rightarrow>
          Some (\<lparr>hasNativeSmoothScroll = native, slideCount = int (getCount sc False)\<rparr>,
                setAriaPressed 0
                  \<lparr>currentSlideIndex = 0, isScrolling = False,
                   ariaPressed = replicate (indicatorCount pg) False,
                   scrollTop = pageScrollTop pg, scrollLeft = pageScrollLeft pg,
                   scrollHeight = pageScrollHeight pg, animations = [], timeouts = [],
                   scrollToRequests = []\<rparr>))"

subsection \<open>Notions of the specification\<close>

text \<open>
  The elements the wheel listener inspects are those of the chain below the scroll
  container, the event's target first. Such an element offers native scrolling in a
  direction when its computed \<open>overflow-y\<close> is \<open>auto\<close> or \<open>scroll\<close> and it has room left:
  downwards \<open>scrollTop + clientHeight < scrollHeight - 1\<close>, upwards \<open>scrollTop > 0\<close>.
\<close>

definition belowScroller :: "pathElement list \<Rightarrow> pathElement list" where
  "belowScroller chain = takeWhile (\<lambda>el. el \<noteq> Scroller) chain"

fun offersNativeScroll :: "int \<Rightarrow> pathElement \<Rightarrow> bool" where
  "offersNativeScroll scrollDirection Scroller = False"
| "offersNativeScroll scrollDirection (Element ov st ch sh) =
     ((ov = ''auto'' \<or> ov = ''scroll'') \<and>
      (0 < scrollDirection \<and> jsAdd st (of_int ch) < jsSub (of_int sh) 1
       \<or> scrollDirection < 0 \<and> 0 < st))"

text \<open>
  The quintic ease-out curve as the specification writes it,
  \<open>change * ((t / duration - 1)^5 + 1) + start\<close>, each operator being the operator of
  JavaScript numbers and the fifth power the repeated product.
\<close>

definition jsPow5 :: "number \<Rightarrow> number" where
  "jsPow5 y = jsMul (jsMul (jsMul (jsMul y y) y) y) y"

definition quinticEaseOut :: "number \<Rightarrow> number \<Rightarrow> number \<Rightarrow> number \<Rightarrow> number" where
  "quinticEaseOut change start t duration =
     jsAdd (jsMul change (jsAdd (jsPow5 (jsSub (jsDiv t duration) 1)) 1)) start"

text \<open>
  The slide offset with the product taken first,
  \<open>Math.floor(scrollHeight * index / slideCount)\<close> evaluated left to right in doubles.
\<close>

definition targetLeftToRight :: "int \<Rightarrow> int \<Rightarrow> int \<Rightarrow> int" where
  "targetLeftToRight h idx n = \<lfloor>jsDiv (jsMul (of_int h) (of_int idx)) (of_int n)\<rfloor>"

text \<open>
  An animation can still act when a frame is requested for it and it was not interrupted.
\<close>

definition live :: "anim \<Rightarrow> bool" where
  "live a = (frameRequested a \<and> \<not> interrupt a)"

text \<open>
  An animation is cancelled when its \<open>interrupt\<close> flag is set and its \<open>cancel\<close> listener is
  attached to neither event.
\<close>

definition cancelled :: "anim \<Rightarrow> bool" where
  "cancelled a = (interrupt a \<and> \<not> listensWheel a \<and> \<not> listensTouchstart a)"

text \<open>
  Two conditions on states, for the analysis of the lock. In every state the script
  reaches, an animation that can still act has both \<open>cancel\<close> listeners attached, the
  polyfill is unused where the browser scrolls smoothly itself, and no timer is pending
  where it does not (\<open>consistent\<close>). The lock is \<open>stuck\<close> when it is held while no
  timer is pending and no animation can still act: nothing is left that would release it.
\<close>

definition consistent :: "env \<Rightarrow> state \<Rightarrow> bool" where
  "consistent ev s =
     ((\<forall>a \<in> set (animations s). live a \<longrightarrow> listensWheel a \<and> listensTouchstart a)
      \<and> (hasNativeSmoothScroll ev \<longrightarrow> animations s = [])
      \<and> (\<not> hasNativeSmoothScroll ev \<longrightarrow> timeouts s = []))"

definition stuck :: "state \<Rightarrow> bool" where
  "stuck s = (isScrolling s \<and> timeouts s = [] \<and> (\<forall>a \<in> set (animations s). \<not> live a))"

text \<open>
  The slide index stays within the slides; with no slide at all it stays at its initial 0.
\<close>

definition indexInRange :: "env \<Rightarrow> state \<Rightarrow> bool" where
  "indexInRange ev s =
     (0 \<le> currentSlideIndex s \<and> (currentSlideIndex s = 0 \<or> currentSlideIndex s < slideCount ev))"

subsection \<open>A page with four slides\<close>

text \<open>
  Four sections of 800 pixels separated by whitespace text nodes, and four indicators.
\<close>

definition fourSlides :: page where
  "fourSlides =
     \<lparr>scroller = Some (Node 1 [Node 3 [], Node 1 [], Node 3 [], Node 1 [], Node 3 [],
                               Node 1 [], Node 3 [], Node 1 [], Node 3 []]),
      indicatorCount = 4, pageScrollTop = 0, pageScrollLeft = 0, pageScrollHeight = 3200\<rparr>"

definition fourEnv :: "bool \<Rightarrow> env" where
  "fourEnv native = \<lparr>hasNativeSmoothScroll = native, slideCount = 4\<rparr>"

definition fourState :: state where
  "fourState =
     \<lparr>currentSlideIndex = 0, isScrolling = False,
      ariaPressed = [True, False, False, False],
      scrollTop = 0, scrollLeft = 0, scrollHeight = 3200, animations = [], timeouts = [],
      scrollToRequests = []\<rparr>"

text \<open>
  The same page in a browser without native smooth scrolling, after a click on the second
  indicator at clock reading 0: the polyfill animation towards offset 800 is under way.
\<close>

definition fourAnimating :: state where
  "fourAnimating =
     \<lparr>currentSlideIndex = 1, isScrolling = True,
      ariaPressed = [False, True, False, False],
      scrollTop = 0, scrollLeft = 0, scrollHeight = 3200,
      animations =
        [\<lparr>key = ScrollTop, target = 800, onComplete = Some ReleaseLock, startTime = 0,
          offset = 0, gap = 800, interrupt = False, listensWheel = True,
          listensTouchstart = True, frameRequested = True\<rparr>],
      timeouts = [], scrollToRequests = []\<rparr>"

subsection \<open>A page with a comment between its two slides\<close>

text \<open>
  \<^verbatim>\<open><div id="vertical-slider"><section></section><!-- second --><section></section></div>\<close>
\<close>

definition commentedSlider :: node where
  "commentedSlider = Node 1 [Node 1 [], Node 8 [], Node 1 []]"

definition commentedPage :: page where
  "commentedPage =
     \<lparr>scroller = Some commentedSlider, indicatorCount = 2, pageScrollTop = 0,
      pageScrollLeft = 0, pageScrollHeight = 1600\<rparr>"




subsection \<open>A page with ten slides\<close>

text \<open>Ten sections of 1080 pixels and ten indicators, as start-up leaves them.\<close>

definition tenSlides :: page where
  "tenSlides =
     \<lparr>scroller = Some (Node 1 [Node 1 [], Node 1 [], Node 1 [], Node 1 [], Node 1 [],
                               Node 1 [], Node 1 [], Node 1 [], Node 1 [], Node 1 []]),
      indicatorCount = 10, pageScrollTop = 0, pageScrollLeft = 0, pageScrollHeight = 10800\<rparr>"

definition tenEnv :: "bool \<Rightarrow> env" where
  "tenEnv native = \<lparr>hasNativeSmoothScroll = native, slideCount = 10\<rparr>"

definition tenState :: state where
  "tenState =
     \<lparr>currentSlideIndex = 0, isScrolling = False,
      ariaPressed = [True, False, False, False, False, False, False, False, False, False],
      scrollTop = 0, scrollLeft = 0, scrollHeight = 10800, animations = [], timeouts = [],
      scrollToRequests = []\<rparr>"

section \<open>Properties\<close>

subsection \<open>Counting slides\<close>

lemma getCount_loop_shallow:
  "getCount_loop cs False acc = acc + length (filter (\<lambda>c. nodeType c \<noteq> 3) cs)"
  by (induction cs arbitrary: acc) simp_all

lemma getCount_shallow:
  "getCount parent False = length (filter (\<lambda>c. nodeType c \<noteq> 3) (childNodes parent))"
  by (cases parent) (simp add: getCount_loop_shallow)

lemma getCount_elements_and_text:
  assumes "\<forall>c \<in> set (childNodes parent). nodeType c = 1 \<or> nodeType c = 3"
  shows "getCount parent False = elementChildren parent"
proof -
  have "filter (\<lambda>c. nodeType c \<noteq> 3) (childNodes parent) =
        filter (\<lambda>c. nodeType c = 1) (childNodes parent)"
    using assms by (intro filter_cong) auto
  then show ?thesis by (simp add: getCount_shallow elementChildren_def)
qed

text \<open>
  Claim C3: \<open>slideCount\<close>, computed as \<open>getCount(scroller, false)\<close>, is the number of
  direct element children of the scroll container. \<open>getCount\<close> leaves out text nodes only
  (\<open>getCount_shallow\<close>): the two numbers agree when every child is an element or a
  text node (\<open>getCount_elements_and_text\<close>), but a comment between two sections counts
  as a slide. The container of \<open>commentedPage\<close> has two element children, \<open>getCount\<close>
  returns 3 for it, and start-up sets \<open>slideCount\<close> to 3.
\<close>

theorem getCount_counts_comment_nodes:
  "getCount commentedSlider False = 3
   \<and> elementChildren commentedSlider = 2
   \<and> map_option (\<lambda>(ev, s). slideCount ev) (DOMContentLoaded True commentedPage) = Some 3"
  by (simp add: elementChildren_def commentedSlider_def commentedPage_def DOMContentLoaded_def)

subsection \<open>Rounding to a double\<close>

lemma bitlen_pos: "0 < n \<Longrightarrow> 1 \<le> bitlen n"
proof (induction n rule: bitlen.induct)
  case (1 n)
  show ?case
  proof (cases "0 < n div 2")
    case True
    with 1 have "1 \<le> bitlen (n div 2)" by simp
    then show ?thesis using 1(2) by (subst bitlen.simps) simp
  next
    case False
    then have "bitlen (n div 2) = 0" by (subst bitlen.simps) simp
    then show ?thesis using 1(2) by (subst bitlen.simps) simp
  qed
qed

lemma bitlen_nonpos: "n \<le> 0 \<Longrightarrow> bitlen n = 0"
  by (subst bitlen.simps) simp

lemma bitlen_bounds:
  "0 < n \<Longrightarrow> 2 ^ nat (bitlen n - 1) \<le> n \<and> n < 2 ^ nat (bitlen n)"
proof (induction n rule: bitlen.induct)
  case (1 n)
  show ?case
  proof (cases "0 < n div 2")
    case True
    with 1 have ih: "2 ^ nat (bitlen (n div 2) - 1) \<le> n div 2" "n div 2 < 2 ^ nat (bitlen (n div 2))"
      by simp_all
    have b: "bitlen n = bitlen (n div 2) + 1" using 1(2) by (subst bitlen.simps) simp
    have p: "1 \<le> bitlen (n div 2)" using True by (rule bitlen_pos)
    have e1: "nat (bitlen n - 1) = Suc (nat (bitlen (n div 2) - 1))" using b p by simp
    have e2: "nat (bitlen n) = Suc (nat (bitlen (n div 2)))" using b p by simp
    have "2 * 2 ^ nat (bitlen (n div 2) - 1) \<le> 2 * (n div 2)" using ih(1) by simp
    also have "\<dots> \<le> n" by simp
    finally have l: "2 ^ nat (bitlen n - 1) \<le> n" unfolding e1 by simp
    have "n div 2 + 1 \<le> 2 ^ nat (bitlen (n div 2))" using ih(2) by simp
    then have "2 * (n div 2) + 2 \<le> 2 * 2 ^ nat (bitlen (n div 2))" by simp
    moreover have "n < 2 * (n div 2) + 2" by presburger
    ultimately have u: "n < 2 ^ nat (bitlen n)" unfolding e2 by simp
    from l u show ?thesis by simp
  next
    case False
    then have n1: "n = 1" using 1(2) by presburger
    have "bitlen (n div 2) = 0" using False by (subst bitlen.simps) simp
    then have "bitlen n = 1" using 1(2) by (subst bitlen.simps) simp
    then show ?thesis using n1 by simp
  qed
qed

lemma bitlen_bounds_rat:
  assumes "0 < n"
  shows "(2::rat) powi (bitlen n - 1) \<le> of_int n" and "of_int n < (2::rat) powi (bitlen n)"
proof -
  have p: "1 \<le> bitlen n" using assms by (rule bitlen_pos)
  have b: "2 ^ nat (bitlen n - 1) \<le> n" "n < 2 ^ nat (bitlen n)"
    using bitlen_bounds[OF assms] by simp_all
  have "(2::rat) powi (bitlen n - 1) = 2 ^ nat (bitlen n - 1)"
    using p by (simp add: power_int_def)
  also have "\<dots> = of_int (2 ^ nat (bitlen n - 1))" by simp
  also have "\<dots> \<le> of_int n" using b(1) by (simp only: of_int_le_iff)
  finally show "(2::rat) powi (bitlen n - 1) \<le> of_int n" .
  have "(of_int n :: rat) < of_int (2 ^ nat (bitlen n))" using b(2) by (simp only: of_int_less_iff)
  also have "\<dots> = 2 ^ nat (bitlen n)" by simp
  also have "\<dots> = (2::rat) powi (bitlen n)" using p by (simp add: power_int_def)
  finally show "of_int n < (2::rat) powi (bitlen n)" .
qed

lemma ilog2_bounds:
  assumes "0 < x"
  shows "2 powi (ilog2 x) \<le> x" and "x < 2 powi (ilog2 x + 1)"
proof -
  obtain p q where pq: "quotient_of x = (p, q)" by (cases "quotient_of x")
  have q: "0 < q" using pq by (rule quotient_of_denom_pos)
  have x: "x = of_int p / of_int q" using pq by (rule quotient_of_div)
  have p: "0 < p" using assms q unfolding x by (simp add: zero_less_divide_iff)
  define g where "g = bitlen p - bitlen q"
  have il: "ilog2 x = (if 2 powi g \<le> x then g else g - 1)"
    by (simp add: ilog2_def pq g_def Let_def)
  have qpos: "(0::rat) < of_int q" using q by simp
  have lo: "(2::rat) powi (g - 1) \<le> x"
  proof -
    have "(2::rat) powi (g - 1) = 2 powi (bitlen p - 1) / 2 powi (bitlen q)"
      by (simp add: g_def power_int_diff)
    also have "\<dots> \<le> of_int p / 2 powi (bitlen q)"
      using bitlen_bounds_rat(1)[OF p] by (simp add: divide_right_mono)
    also have "\<dots> \<le> of_int p / of_int q"
      using bitlen_bounds_rat(2)[OF q] p qpos by (simp add: frac_le)
    finally show ?thesis unfolding x .
  qed
  have hi: "x < (2::rat) powi (g + 1)"
  proof -
    have "x < 2 powi (bitlen p) / of_int q"
      unfolding x using bitlen_bounds_rat(2)[OF p] qpos by (simp add: divide_strict_right_mono)
    also have "\<dots> \<le> 2 powi (bitlen p) / 2 powi (bitlen q - 1)"
      using bitlen_bounds_rat(1)[OF q] by (simp add: frac_le)
    also have "\<dots> = (2::rat) powi (g + 1)"
    proof -
      have "g + 1 = bitlen p - (bitlen q - 1)" by (simp add: g_def)
      then show ?thesis by (simp only: power_int_diff[of "2::rat", simplified])
    qed
    finally show ?thesis .
  qed
  show "2 powi (ilog2 x) \<le> x" using lo by (simp add: il)
  show "x < 2 powi (ilog2 x + 1)" using hi by (auto simp add: il not_le)
qed

lemma ilog2_unique:
  assumes "2 powi e \<le> x" and "x < 2 powi (e + 1)"
  shows "ilog2 x = e"
proof -
  have "(0::rat) < 2 powi e" by simp
  then have x: "0 < x" using assms(1) by (rule less_le_trans)
  note b = ilog2_bounds[OF x]
  have 1: "e < ilog2 x + 1"
  proof (rule ccontr)
    assume "\<not> e < ilog2 x + 1"
    then have "(2::rat) powi (ilog2 x + 1) \<le> 2 powi e" by (intro power_int_increasing) simp_all
    then show False using assms(1) b(2) by simp
  qed
  have 2: "ilog2 x < e + 1"
  proof (rule ccontr)
    assume "\<not> ilog2 x < e + 1"
    then have "(2::rat) powi (e + 1) \<le> 2 powi (ilog2 x)" by (intro power_int_increasing) simp_all
    then show False using assms(2) b(1) by simp
  qed
  from 1 2 show ?thesis by simp
qed

lemma roundHalfEven_cases:
  "roundHalfEven m = \<lfloor>m\<rfloor> \<and> m - of_int \<lfloor>m\<rfloor> \<le> 1 / 2
   \<or> roundHalfEven m = \<lfloor>m\<rfloor> + 1 \<and> 1 / 2 \<le> m - of_int \<lfloor>m\<rfloor>"
  by (auto simp: roundHalfEven_def Let_def)

lemma roundHalfEven_error: "\<bar>of_int (roundHalfEven m) - m\<bar> \<le> 1 / 2"
proof -
  have f: "of_int \<lfloor>m\<rfloor> \<le> m" "m < of_int \<lfloor>m\<rfloor> + 1" by linarith+
  from roundHalfEven_cases[of m] show ?thesis
  proof
    assume "roundHalfEven m = \<lfloor>m\<rfloor> \<and> m - of_int \<lfloor>m\<rfloor> \<le> 1 / 2"
    then show ?thesis using f by simp
  next
    assume "roundHalfEven m = \<lfloor>m\<rfloor> + 1 \<and> 1 / 2 \<le> m - of_int \<lfloor>m\<rfloor>"
    then show ?thesis using f by simp
  qed
qed

lemma roundHalfEven_of_int [simp]: "roundHalfEven (of_int k) = k"
  by (simp add: roundHalfEven_def)

lemma roundHalfEven_nonneg: "0 \<le> m \<Longrightarrow> 0 \<le> roundHalfEven m"
proof -
  assume "0 \<le> m"
  then have "0 \<le> \<lfloor>m\<rfloor>" by simp
  then show ?thesis using roundHalfEven_cases[of m] by auto
qed

lemma roundToDouble_zero [simp]: "roundToDouble 0 = 0"
  by (simp add: roundToDouble_def)

lemma roundToDouble_minus: "roundToDouble (- x) = - roundToDouble x"
  by (simp add: roundToDouble_def Let_def)

lemma roundToDouble_pos_eq:
  "0 < x \<Longrightarrow> roundToDouble x =
     of_int (roundHalfEven (x / 2 powi (max (ilog2 x) (- 1022) - 52)))
       * 2 powi (max (ilog2 x) (- 1022) - 52)"
  by (simp add: roundToDouble_def Let_def)

lemma roundToDouble_nonneg: "0 \<le> x \<Longrightarrow> 0 \<le> roundToDouble x"
proof (cases "x = 0")
  case False
  assume "0 \<le> x"
  with False have x: "0 < x" by simp
  have "0 \<le> x / 2 powi (max (ilog2 x) (- 1022) - 52)" using x by simp
  then have "0 \<le> roundHalfEven (x / 2 powi (max (ilog2 x) (- 1022) - 52))"
    by (rule roundHalfEven_nonneg)
  then show ?thesis by (simp add: roundToDouble_pos_eq[OF x])
qed simp

lemma roundToDouble_nonpos: "x \<le> 0 \<Longrightarrow> roundToDouble x \<le> 0"
  using roundToDouble_nonneg[of "- x"] by (simp add: roundToDouble_minus)

lemma roundToDouble_error_pos:
  assumes x: "0 < x"
  shows "\<bar>roundToDouble x - x\<bar> \<le> x / 2 ^ 53 + 2 powi (- 1075)"
proof -
  define e where "e = max (ilog2 x) (- 1022)"
  define u :: rat where "u = 2 powi (e - 52)"
  have u: "0 < u" by (simp add: u_def)
  have r: "roundToDouble x = of_int (roundHalfEven (x / u)) * u"
    using roundToDouble_pos_eq[OF x] by (simp add: e_def u_def)
  have "\<bar>roundToDouble x - x\<bar> = \<bar>of_int (roundHalfEven (x / u)) - x / u\<bar> * u"
  proof -
    have "roundToDouble x - x = (of_int (roundHalfEven (x / u)) - x / u) * u"
      using u by (simp add: r field_simps)
    then show ?thesis using u by (simp add: abs_mult)
  qed
  also have "\<dots> \<le> 1 / 2 * u"
    using roundHalfEven_error[of "x / u"] u by (intro mult_right_mono) simp_all
  also have "\<dots> = 2 powi (e - 53)"
  proof -
    have "e - 52 = (e - 53) + 1" by simp
    then have "u = 2 powi (e - 53) * 2" unfolding u_def by (simp only: power_int_add_1[of "2::rat", simplified])
    then show ?thesis by simp
  qed
  also have "\<dots> \<le> x / 2 ^ 53 + 2 powi (- 1075)"
  proof (cases "- 1022 \<le> ilog2 x")
    case True
    then have e: "e = ilog2 x" by (simp add: e_def)
    have "(2::rat) powi (e - 53) = 2 powi e / 2 ^ 53"
      by (simp add: power_int_diff)
    also have "\<dots> \<le> x / 2 ^ 53"
      using ilog2_bounds(1)[OF x] by (simp add: e divide_right_mono)
    also have "\<dots> \<le> x / 2 ^ 53 + 2 powi (- 1075)" by simp
    finally show ?thesis .
  next
    case False
    then have e: "e = - 1022" by (simp add: e_def)
    have "(2::rat) powi (e - 53) = 2 powi (- 1075)" by (simp add: e)
    also have "\<dots> \<le> x / 2 ^ 53 + 2 powi (- 1075)" using x by simp
    finally show ?thesis .
  qed
  finally show ?thesis .
qed

lemma roundToDouble_error: "\<bar>roundToDouble x - x\<bar> \<le> \<bar>x\<bar> / 2 ^ 53 + 2 powi (- 1075)"
proof -
  consider "x = 0" | "0 < x" | "x < 0" by linarith
  then show ?thesis
  proof cases
    case 1
    then show ?thesis by simp
  next
    case 2
    then show ?thesis using roundToDouble_error_pos[OF 2] by simp
  next
    case 3
    then have "0 < - x" by simp
    from roundToDouble_error_pos[OF this] show ?thesis
      using 3 by (simp add: roundToDouble_minus abs_minus_commute)
  qed
qed

lemma roundToDouble_of_int_pos:
  assumes n: "0 < n" and le: "n \<le> 2 ^ 53"
  shows "roundToDouble (of_int n) = of_int n"
proof -
  define x :: rat where "x = of_int n"
  have x: "0 < x" using n by (simp add: x_def)
  have x1: "1 \<le> x" using n by (simp add: x_def)
  have xle: "x \<le> 2 ^ 53"
  proof -
    have "(of_int n :: rat) \<le> of_int (2 ^ 53)" using le by (simp only: of_int_le_iff)
    then show ?thesis by (simp add: x_def)
  qed
  define e where "e = ilog2 x"
  note b = ilog2_bounds[OF x, folded e_def]
  have e0: "0 \<le> e"
  proof (rule ccontr)
    assume "\<not> 0 \<le> e"
    then have "(2::rat) powi (e + 1) \<le> 2 powi 0" by (intro power_int_increasing) simp_all
    then show False using b(2) x1 by simp
  qed
  have e53: "e \<le> 53"
  proof (rule ccontr)
    assume "\<not> e \<le> 53"
    then have "(2::rat) powi 54 \<le> 2 powi e" by (intro power_int_increasing) simp_all
    then have "(2::rat) ^ 54 \<le> x" using b(1) by simp
    then show False using xle by simp
  qed
  have m: "max e (- 1022) = e" using e0 by simp
  have r: "roundToDouble x = of_int (roundHalfEven (x / 2 powi (e - 52))) * 2 powi (e - 52)"
    using roundToDouble_pos_eq[OF x] by (simp add: e_def[symmetric] m)
  show ?thesis
  proof (cases "e \<le> 52")
    case True
    define k where "k = nat (52 - e)"
    have "(2::rat) powi (e - 52) = inverse (2 powi (52 - e))"
      using power_int_minus[of "2::rat" "52 - e"] by simp
    also have "\<dots> = inverse (2 ^ k)" using True by (simp add: power_int_def k_def)
    finally have u: "(2::rat) powi (e - 52) = inverse (2 ^ k)" .
    have "x / 2 powi (e - 52) = of_int (n * 2 ^ k)" by (simp add: u x_def field_simps)
    then have "roundHalfEven (x / 2 powi (e - 52)) = n * 2 ^ k" by (simp only: roundHalfEven_of_int)
    then have "roundToDouble x = of_int (n * 2 ^ k) * inverse (2 ^ k)" by (simp only: r u)
    then show ?thesis by (simp add: x_def)
  next
    case False
    then have e: "e = 53" using e53 by simp
    have "x = 2 ^ 53" using b(1) xle by (simp add: e)
    then have xx: "x / 2 powi (e - 52) = of_int (2 ^ 52)" by (simp add: e)
    have "roundHalfEven (x / 2 powi (e - 52)) = 2 ^ 52" unfolding xx by (rule roundHalfEven_of_int)
    then have "roundToDouble x = of_int (2 ^ 52) * 2 powi (e - 52)" by (simp only: r)
    then show ?thesis using \<open>x = 2 ^ 53\<close> by (simp add: e x_def)
  qed
qed

lemma roundToDouble_of_int:
  assumes "\<bar>n\<bar> \<le> 2 ^ 53"
  shows "roundToDouble (of_int n) = of_int n"
proof -
  consider "n = 0" | "0 < n" | "n < 0" by linarith
  then show ?thesis
  proof cases
    case 1
    then show ?thesis by simp
  next
    case 2
    then show ?thesis using assms by (intro roundToDouble_of_int_pos) simp_all
  next
    case 3
    then have "roundToDouble (of_int (- n)) = of_int (- n)"
      using assms by (intro roundToDouble_of_int_pos) simp_all
    then show ?thesis by (simp add: roundToDouble_minus)
  qed
qed

lemma roundToDouble_one [simp]: "roundToDouble 1 = 1"
  using roundToDouble_of_int[of 1] by simp

lemma eps_small: "(2::rat) powi (- 1075) \<le> 1 / 2 ^ 200"
proof -
  have "(- 1075 :: int) \<le> - 200" by simp
  then have "(2::rat) powi (- 1075) \<le> 2 powi (- 200)" by (rule power_int_increasing) simp
  also have "\<dots> = 1 / 2 ^ 200" by (simp add: power_int_minus inverse_eq_divide)
  finally show ?thesis .
qed

lemma percentage_gt_one_iff:
  "1 < jsDiv (of_int elapsed) SCROLL_DURATION \<longleftrightarrow> 800 < elapsed"
proof -
  define x :: rat where "x = of_int elapsed / 800"
  have j: "jsDiv (of_int elapsed) SCROLL_DURATION = roundToDouble x"
    by (simp add: jsDiv_def SCROLL_DURATION_def x_def)
  note er = roundToDouble_error[of x]
  note ep = eps_small
  consider "elapsed \<le> 0" | "1 \<le> elapsed \<and> elapsed \<le> 799" | "elapsed = 800" | "801 \<le> elapsed"
    by linarith
  then show ?thesis
  proof cases
    case 1
    then have "x \<le> 0" by (simp add: x_def divide_le_0_iff)
    then have "roundToDouble x \<le> 0" by (rule roundToDouble_nonpos)
    then show ?thesis using 1 by (simp add: j)
  next
    case 2
    then have "(of_int elapsed :: rat) \<le> of_int 799" "(of_int 1 :: rat) \<le> of_int elapsed"
      by (simp_all only: of_int_le_iff)
    then have "0 < x" "x \<le> 799 / 800" by (simp_all add: x_def)
    then have "roundToDouble x < 1" using er ep by simp
    then show ?thesis using 2 by (simp add: j)
  next
    case 3
    then have "x = 1" by (simp add: x_def)
    then have "roundToDouble x = 1" by simp
    then show ?thesis unfolding j using 3 by simp
  next
    case 4
    then have "(of_int 801 :: rat) \<le> of_int elapsed" by (simp only: of_int_le_iff)
    then have "801 / 800 \<le> x" by (simp add: x_def)
    then have "1 < roundToDouble x" using er ep by simp
    then show ?thesis using 4 by (simp add: j)
  qed
qed

lemma roundToDouble_numeral:
  "numeral k \<le> (2 ^ 53 :: int) \<Longrightarrow> roundToDouble (numeral k) = numeral k"
  using roundToDouble_of_int[of "numeral k"] by simp

subsection \<open>The target offset\<close>

lemma targetScrollTop_bounds:
  assumes h: "0 \<le> h" and i: "0 \<le> i" and n: "i < n" and b: "h * i < 2 ^ 50"
  shows "targetScrollTop h i n = h * i div n \<or> targetScrollTop h i n = h * i div n - 1"
proof -
  define x :: rat where "x = of_int i / of_int n"
  define q where "q = roundToDouble x"
  define p where "p = of_int h * q"
  define P where "P = roundToDouble p"
  define E' :: rat where "E' = of_int (h * i) / of_int n"
  define E where "E = h * i div n"
  define eps :: rat where "eps = 2 powi (- 1075)"
  have T: "targetScrollTop h i n = \<lfloor>P\<rfloor>"
    by (simp add: targetScrollTop_def jsMul_def jsDiv_def P_def p_def q_def x_def)
  have npos: "0 < n" using i n by simp
  have nr: "(1::rat) \<le> of_int n" using npos by simp
  have x0: "0 \<le> x" using i npos by (simp add: x_def)
  have q0: "0 \<le> q" unfolding q_def using x0 by (rule roundToDouble_nonneg)
  have hr: "(0::rat) \<le> of_int h" using h by simp
  have p0: "0 \<le> p" unfolding p_def using hr q0 by (rule mult_nonneg_nonneg)
  have P0: "0 \<le> P" unfolding P_def using p0 by (rule roundToDouble_nonneg)
  have eps0: "0 < eps" by (simp add: eps_def)
  have epsle: "eps \<le> 1 / 2 ^ 200" unfolding eps_def by (rule eps_small)
  have eq: "\<bar>q - x\<bar> \<le> x / 2 ^ 53 + eps"
    using roundToDouble_error[of x] x0 by (simp add: q_def eps_def)
  have eP: "\<bar>P - p\<bar> \<le> p / 2 ^ 53 + eps"
    using roundToDouble_error[of p] p0 by (simp add: P_def eps_def)
  have hx: "of_int h * x = E'" by (simp add: x_def E'_def)
  have E'0: "0 \<le> E'" using h i npos by (simp add: E'_def)
  have Efl: "E = \<lfloor>E'\<rfloor>" unfolding E_def E'_def by (simp only: floor_divide_of_int_eq)
  have El: "of_int E \<le> E'" and Eu: "E' < of_int E + 1" unfolding Efl by linarith+
  have hib: "(of_int (h * i) :: rat) \<le> 2 ^ 50 - 1"
  proof -
    have "h * i \<le> 2 ^ 50 - 1" using b by simp
    then have "(of_int (h * i) :: rat) \<le> of_int (2 ^ 50 - 1)" by (simp only: of_int_le_iff)
    then show ?thesis by simp
  qed
  have hi0: "(0::rat) \<le> of_int (h * i)" using h i by simp
  have E'b: "E' \<le> 2 ^ 50 - 1"
  proof -
    have "E' \<le> of_int (h * i) / 1" unfolding E'_def using nr hi0 by (intro divide_left_mono) simp_all
    then show ?thesis using hib by simp
  qed
  show ?thesis
  proof (cases "h * i = 0")
    case True
    then have "h = 0 \<or> i = 0" by simp
    then have "p = 0" by (auto simp: p_def q_def x_def)
    then have "P = 0" by (simp add: P_def)
    then have "\<lfloor>P\<rfloor> = 0" by simp
    moreover have "h * i div n = 0" by (simp only: True div_0)
    ultimately show ?thesis by (simp add: T)
  next
    case False
    then have h1: "1 \<le> h" and i1: "1 \<le> i" using h i by (auto simp: less_le)
    have "h * 1 \<le> h * i" using h i1 by (intro mult_left_mono) simp_all
    then have "h \<le> 2 ^ 50" using b by simp
    then have "(of_int h :: rat) \<le> of_int (2 ^ 50)" by (simp only: of_int_le_iff)
    then have hb: "(of_int h :: rat) \<le> 2 ^ 50" by simp
    define he where "he = of_int h * eps"
    have he0: "0 \<le> he" unfolding he_def using hr eps0 by simp
    have heb: "he \<le> 2 ^ 50 * (1 / 2 ^ 200)"
      unfolding he_def using hb epsle hr eps0 by (intro mult_mono) simp_all
    have pE: "\<bar>p - E'\<bar> \<le> E' / 2 ^ 53 + he"
    proof -
      have "\<bar>p - E'\<bar> = of_int h * \<bar>q - x\<bar>"
        using hr by (simp add: p_def hx[symmetric] abs_mult right_diff_distrib[symmetric])
      also have "\<dots> \<le> of_int h * (x / 2 ^ 53 + eps)"
        using eq hr by (rule mult_left_mono)
      also have "\<dots> = E' / 2 ^ 53 + he"
        by (simp add: he_def hx[symmetric] distrib_left)
      finally show ?thesis .
    qed
    have lower: "of_int E - 1 \<le> P"
      using El E'b pE eP heb epsle he0 eps0 by simp
    have upper: "P < of_int E + 1"
    proof (cases "n \<le> 2 ^ 50")
      case True
      define w :: rat where "w = 1 / of_int n"
      have "(of_int n :: rat) \<le> of_int (2 ^ 50)" using True by (simp only: of_int_le_iff)
      then have "(of_int n :: rat) \<le> 2 ^ 50" by simp
      then have wl: "1 / 2 ^ 50 \<le> w" unfolding w_def using nr by (intro divide_left_mono) simp_all
      have w0: "0 < w" using npos by (simp add: w_def)
      have E'w: "E' = of_int (h * i) * w" by (simp add: E'_def w_def)
      have E'wb: "E' \<le> (2 ^ 50 - 1) * w" unfolding E'w using hib w0 by (intro mult_right_mono) simp_all
      have md: "h * i = n * E + h * i mod n" by (simp add: E_def)
      have "h * i mod n \<le> n - 1" using npos by simp
      then have "h * i \<le> n * E + n - 1" using md by linarith
      then have "(of_int (h * i) :: rat) \<le> of_int (n * E + n - 1)" by (simp only: of_int_le_iff)
      then have "(of_int (h * i) :: rat) \<le> of_int n * (of_int E + 1) - 1" by (simp add: algebra_simps)
      then have "of_int (h * i) * w \<le> (of_int n * (of_int E + 1) - 1) * w"
        using w0 by (intro mult_right_mono) simp_all
      also have "\<dots> = of_int E + 1 - w" using npos by (simp add: w_def field_simps)
      finally have E'u: "E' \<le> of_int E + 1 - w" by (simp add: E'w)
      show ?thesis
        using E'u E'wb wl pE eP heb epsle he0 eps0 E'0 by simp
    next
      case False
      then have nb: "2 ^ 50 + 1 \<le> n" by simp
      then have "h * i < n" using b by linarith
      then have E0: "E = 0" using h i by (simp add: E_def)
      have "(of_int (2 ^ 50 + 1) :: rat) \<le> of_int n" using nb by (simp only: of_int_le_iff)
      then have nbr: "(2 ^ 50 :: rat) \<le> of_int n" by simp
      have "E' \<le> (2 ^ 50 - 1) / of_int n"
        unfolding E'_def using hib npos by (intro divide_right_mono) simp_all
      also have "\<dots> \<le> (2 ^ 50 - 1) / 2 ^ 50"
        using nbr by (intro divide_left_mono) simp_all
      finally have "E' \<le> (2 ^ 50 - 1) / 2 ^ 50" .
      then show ?thesis
        using pE eP heb epsle he0 eps0 E'0 by (simp add: E0)
    qed
    have "E - 1 \<le> \<lfloor>P\<rfloor>" using lower by (simp add: le_floor_iff)
    moreover have "\<lfloor>P\<rfloor> < E + 1"
    proof -
      have "P < of_int (E + 1)" using upper by simp
      then show ?thesis by (simp only: floor_less_iff)
    qed
    ultimately show ?thesis by (auto simp: T E_def)
  qed
qed

subsection \<open>Steps and frames of the polyfill animation\<close>

lemma currentSlideIndex_writeKey [simp]: "currentSlideIndex (writeKey k v s) = currentSlideIndex s"
  by (cases k) (simp_all add: writeKey_def)

lemma ariaPressed_writeKey [simp]: "ariaPressed (writeKey k v s) = ariaPressed s"
  by (cases k) (simp_all add: writeKey_def)

lemma animations_writeKey [simp]: "animations (writeKey k v s) = animations s"
  by (cases k) (simp_all add: writeKey_def)

lemma isScrolling_writeKey [simp]: "isScrolling (writeKey k v s) = isScrolling s"
  by (cases k) (simp_all add: writeKey_def)

lemma timeouts_writeKey [simp]: "timeouts (writeKey k v s) = timeouts s"
  by (cases k) (simp_all add: writeKey_def)

lemma currentSlideIndex_step [simp]: "currentSlideIndex (step k now s) = currentSlideIndex s"
  by (simp add: step_def Let_def runCallback_def split: option.splits callback.splits)

lemma ariaPressed_step [simp]: "ariaPressed (step k now s) = ariaPressed s"
  by (simp add: step_def Let_def runCallback_def split: option.splits callback.splits)

lemma currentSlideIndex_smoothScroll [simp]:
  "currentSlideIndex (smoothScroll ev v b cb tStart tStep s) = currentSlideIndex s"
  by (simp add: smoothScroll_def smoothScrollPolyfill_def Let_def split: option.splits)

lemma ariaPressed_smoothScroll [simp]:
  "ariaPressed (smoothScroll ev v b cb tStart tStep s) = ariaPressed s"
  by (simp add: smoothScroll_def smoothScrollPolyfill_def Let_def split: option.splits)

lemma step_interrupted: "interrupt (animations s ! k) \<Longrightarrow> step k now s = s"
  by (simp add: step_def)

lemma animations_runCallback [simp]: "animations (runCallback cb s) = animations s"
  by (cases cb) (simp add: runCallback_def)

lemma timeouts_runCallback [simp]: "timeouts (runCallback cb s) = timeouts s"
  by (cases cb) (simp add: runCallback_def)

lemma currentSlideIndex_runCallback [simp]:
  "currentSlideIndex (runCallback cb s) = currentSlideIndex s"
  by (cases cb) (simp add: runCallback_def)

lemma percentage_gt_one_diff_iff:
  "1 < jsDiv (of_int a - of_int b) SCROLL_DURATION \<longleftrightarrow> 800 < a - b"
  using percentage_gt_one_iff[of "a - b"] by simp

lemma frameRequested_update_same:
  "frameRequested a \<Longrightarrow> a\<lparr>frameRequested := True\<rparr> = a"
  by simp

lemma animations_step:
  "animations (step k now s) =
     (let a = animations s ! k in
      if interrupt a then animations s
      else if 800 < now - startTime a then (animations s)[k := cleanup a]
      else (animations s)[k := a\<lparr>frameRequested := True\<rparr>])"
  by (simp add: step_def Let_def percentage_gt_one_diff_iff split: option.splits)

lemma length_animations_step [simp]: "length (animations (step k now s)) = length (animations s)"
  by (simp add: animations_step Let_def)

lemma timeouts_step [simp]: "timeouts (step k now s) = timeouts s"
  by (simp add: step_def Let_def split: option.splits)

lemma animations_frameCallback:
  "animations (frameCallback now s k) =
     (let a = animations s ! k in
      if \<not> frameRequested a then animations s
      else if interrupt a then (animations s)[k := a\<lparr>frameRequested := False\<rparr>]
      else if 800 < now - startTime a then (animations s)[k := cleanup (a\<lparr>frameRequested := False\<rparr>)]
      else (animations s)[k := a])"
proof (cases "k < length (animations s)")
  case True
  then show ?thesis
    by (simp add: frameCallback_def animations_step Let_def frameRequested_update_same)
next
  case False
  then show ?thesis
    by (simp add: frameCallback_def animations_step Let_def list_update_beyond)
qed

lemma length_animations_frameCallback [simp]:
  "length (animations (frameCallback now s k)) = length (animations s)"
  by (simp add: frameCallback_def)

lemma currentSlideIndex_frameCallback [simp]:
  "currentSlideIndex (frameCallback now s k) = currentSlideIndex s"
  by (simp add: frameCallback_def)

lemma timeouts_frameCallback [simp]: "timeouts (frameCallback now s k) = timeouts s"
  by (simp add: frameCallback_def)

lemma ariaPressed_frameCallback [simp]: "ariaPressed (frameCallback now s k) = ariaPressed s"
  by (simp add: frameCallback_def)

lemma foldl_frameCallback_invariant:
  assumes "P s" and "\<And>s k. P s \<Longrightarrow> P (frameCallback now s k)"
  shows "P (foldl (frameCallback now) s ks)"
  using assms(1)
proof (induction ks arbitrary: s)
  case Nil
  then show ?case by simp
next
  case (Cons k ks)
  then show ?case by (simp add: assms(2))
qed

lemma currentSlideIndex_animationFrame [simp]:
  "currentSlideIndex (animationFrame now s) = currentSlideIndex s"
  unfolding animationFrame_def
  by (rule foldl_frameCallback_invariant[where P = "\<lambda>s'. currentSlideIndex s' = currentSlideIndex s"]) simp_all

lemma length_animations_animationFrame [simp]:
  "length (animations (animationFrame now s)) = length (animations s)"
  unfolding animationFrame_def
  by (rule foldl_frameCallback_invariant[where P = "\<lambda>s'. length (animations s') = length (animations s)"]) simp_all

lemma timeouts_animationFrame [simp]: "timeouts (animationFrame now s) = timeouts s"
  unfolding animationFrame_def
  by (rule foldl_frameCallback_invariant[where P = "\<lambda>s'. timeouts s' = timeouts s"]) simp_all

lemma ariaPressed_animationFrame [simp]: "ariaPressed (animationFrame now s) = ariaPressed s"
  unfolding animationFrame_def
  by (rule foldl_frameCallback_invariant[where P = "\<lambda>s'. ariaPressed s' = ariaPressed s"]) simp_all

lemma interrupt_cleanup [simp]: "interrupt (cleanup a) = interrupt a"
  by (simp add: cleanup_def)

lemma frameRequested_cleanup [simp]: "frameRequested (cleanup a) = frameRequested a"
  by (simp add: cleanup_def)

lemma listens_cleanup [simp]: "listensWheel (cleanup a) = False" "listensTouchstart (cleanup a) = False"
  by (simp_all add: cleanup_def)

lemma cancel_simps [simp]:
  "interrupt (cancel a) = True" "listensWheel (cancel a) = False"
  "listensTouchstart (cancel a) = False" "frameRequested (cancel a) = frameRequested a"
  by (simp_all add: cancel_def cleanup_def)

lemma map_interrupt_frameCallback [simp]:
  "map interrupt (animations (frameCallback now s k)) = map interrupt (animations s)"
proof (cases "k < length (animations s)")
  case True
  then show ?thesis
    by (simp add: animations_frameCallback Let_def map_update list_update_same_conv)
next
  case False
  then show ?thesis
    by (simp add: animations_frameCallback Let_def list_update_beyond)
qed

lemma map_interrupt_animationFrame [simp]:
  "map interrupt (animations (animationFrame now s)) = map interrupt (animations s)"
  unfolding animationFrame_def
  by (rule foldl_frameCallback_invariant[where P = "\<lambda>s'. map interrupt (animations s') = map interrupt (animations s)"]) simp_all

subsection \<open>Navigation\<close>

lemma currentSlideIndex_navigateToSlide:
  "currentSlideIndex (navigateToSlide ev index tStart tStep s) =
     (if \<not> isScrolling s \<and> 0 \<le> index \<and> index < slideCount ev then index else currentSlideIndex s)"
  by (auto simp add: navigateToSlide_def Let_def setAriaPressed_def)


text \<open>
  Claim C2: a call of \<open>navigateToSlide\<close> while \<open>isScrolling\<close> holds, or with an index
  below 0 or from \<open>slideCount\<close> on, changes nothing: the state after the call, with the
  current index, the lock, every indicator, the animations, the timers and the scroll
  requests, is the state before it.
\<close>

theorem navigateToSlide_rejected:
  "isScrolling s \<or> index < 0 \<or> slideCount ev \<le> index \<Longrightarrow> navigateToSlide ev index tStart tStep s = s"
  by (simp add: navigateToSlide_def)

theorem navigateToSlide_rejected_witness:
  "slideCount (fourEnv True) \<le> 4
   \<and> navigateToSlide (fourEnv True) 4 0 0 (fourState\<lparr>currentSlideIndex := 3\<rparr>)
       = fourState\<lparr>currentSlideIndex := 3\<rparr>"
  using navigateToSlide_rejected[where ev = "fourEnv True" and index = 4 and tStart = 0 and tStep = 0
      and s = "fourState\<lparr>currentSlideIndex := 3\<rparr>"]
  by (simp add: fourEnv_def)







text \<open>
  Three values to compare with a JavaScript console: \<open>0.1\<close>, \<open>7 / 10\<close> and
  \<open>10800 * (7 / 10)\<close>, the last one being \<open>7559.999999999999\<close>.
\<close>

lemma roundToDouble_tenth: "roundToDouble (1 / 10) = 3602879701896397 / 36028797018963968"
  by code_simp

lemma jsDiv_seven_tenths: "jsDiv 7 10 = 3152519739159347 / 4503599627370496"
  by code_simp

lemma jsMul_seven_tenths:
  "jsMul 10800 (3152519739159347 / 4503599627370496) = 8312307905986559 / 1099511627776"
  by code_simp

lemma ten_loaded: "DOMContentLoaded native tenSlides = Some (tenEnv native, tenState)"
  by (simp add: DOMContentLoaded_def tenSlides_def tenEnv_def tenState_def setAriaPressed_def
      upt_rec numeral_eq_Suc)

lemma targetScrollTop_ten: "targetScrollTop 10800 7 10 = 7559"
  by (simp add: targetScrollTop_def jsDiv_seven_tenths jsMul_seven_tenths floor_eq_iff)

lemma targetLeftToRight_exact:
  assumes h: "0 \<le> h" and i: "0 \<le> i" and n: "0 < n" and b: "h * i < 2 ^ 52"
  shows "targetLeftToRight h i n = h * i div n"
proof -
  define k where "k = h * i"
  have k0: "0 \<le> k" using h i by (simp add: k_def)
  have kb: "k < 2 ^ 52" using b by (simp add: k_def)
  have "jsMul (of_int h) (of_int i) = roundToDouble (of_int k)"
    by (simp add: jsMul_def k_def)
  also have "\<dots> = of_int k" using k0 kb by (intro roundToDouble_of_int) simp
  finally have m: "jsMul (of_int h) (of_int i) = of_int k" .
  define x :: rat where "x = of_int k / of_int n"
  define P where "P = roundToDouble x"
  define E where "E = k div n"
  have T: "targetLeftToRight h i n = \<lfloor>P\<rfloor>"
    by (simp add: targetLeftToRight_def m jsDiv_def P_def x_def)
  have nr: "(1::rat) \<le> of_int n" using n by simp
  have x0: "0 \<le> x" using k0 n by (simp add: x_def)
  have P0: "0 \<le> P" unfolding P_def using x0 by (rule roundToDouble_nonneg)
  have eP: "\<bar>P - x\<bar> \<le> x / 2 ^ 53 + 1 / 2 ^ 200"
    using roundToDouble_error[of x] x0 eps_small by (simp add: P_def)
  have kr: "(of_int k :: rat) \<le> 2 ^ 52 - 1"
  proof -
    have "k \<le> 2 ^ 52 - 1" using kb by simp
    then have "(of_int k :: rat) \<le> of_int (2 ^ 52 - 1)" by (simp only: of_int_le_iff)
    then show ?thesis by simp
  qed
  have kr0: "(0::rat) \<le> of_int k" using k0 by simp
  have md: "k = n * E + k mod n" by (simp add: E_def)
  have r0: "0 \<le> k mod n" and r1: "k mod n \<le> n - 1" using n by simp_all
  have "\<lfloor>P\<rfloor> = E"
  proof (cases "k mod n = 0")
    case True
    then have kE: "k = n * E" using md by simp
    then have xe: "x = of_int E" using n by (simp add: x_def)
    have E0: "0 \<le> E" using k0 n by (simp add: E_def pos_imp_zdiv_nonneg_iff)
    have "1 * E \<le> n * E" using n E0 by (intro mult_right_mono) simp_all
    then have "E \<le> k" using kE by simp
    then have "\<bar>E\<bar> \<le> 2 ^ 53" using kb E0 by simp
    then have "P = of_int E" unfolding P_def xe by (rule roundToDouble_of_int)
    then show ?thesis by simp
  next
    case False
    then have r: "1 \<le> k mod n" using r0 by simp
    show ?thesis
    proof (cases "n \<le> 2 ^ 52")
      case True
      define w :: rat where "w = 1 / of_int n"
      have "(of_int n :: rat) \<le> of_int (2 ^ 52)" using True by (simp only: of_int_le_iff)
      then have "(of_int n :: rat) \<le> 2 ^ 52" by simp
      then have wl: "1 / 2 ^ 52 \<le> w" unfolding w_def using nr by (intro divide_left_mono) simp_all
      have w0: "0 < w" using n by (simp add: w_def)
      have xw: "x = of_int k * w" by (simp add: x_def w_def)
      have xb: "x \<le> (2 ^ 52 - 1) * w" unfolding xw using kr w0 by (intro mult_right_mono) simp_all
      have "n * E + 1 \<le> k" using md r by linarith
      then have "(of_int (n * E + 1) :: rat) \<le> of_int k" by (simp only: of_int_le_iff)
      then have "(of_int n * of_int E + 1) * w \<le> of_int k * w"
        using w0 by (intro mult_right_mono) simp_all
      moreover have "(of_int n * of_int E + 1) * w = of_int E + w"
        using n by (simp add: w_def field_simps)
      ultimately have xl: "of_int E + w \<le> x" by (simp add: xw)
      have "k \<le> n * E + n - 1" using md r1 by linarith
      then have "(of_int k :: rat) \<le> of_int (n * E + n - 1)" by (simp only: of_int_le_iff)
      then have "(of_int k :: rat) \<le> of_int n * (of_int E + 1) - 1" by (simp add: algebra_simps)
      then have "of_int k * w \<le> (of_int n * (of_int E + 1) - 1) * w"
        using w0 by (intro mult_right_mono) simp_all
      moreover have "(of_int n * (of_int E + 1) - 1) * w = of_int E + 1 - w"
        using n by (simp add: w_def field_simps)
      ultimately have xu: "x \<le> of_int E + 1 - w" by (simp add: xw)
      have lo: "of_int E \<le> P" using xl xb wl eP w0 by simp
      have hi: "P < of_int (E + 1)" using xu xb wl eP w0 by simp
      from lo hi show ?thesis by (simp only: floor_eq_iff of_int_add of_int_1)
    next
      case False
      then have nb: "2 ^ 52 + 1 \<le> n" by simp
      then have "k < n" using kb by linarith
      then have E0: "E = 0" using k0 by (simp add: E_def)
      have "(of_int (2 ^ 52 + 1) :: rat) \<le> of_int n" using nb by (simp only: of_int_le_iff)
      then have nbr: "(2 ^ 52 :: rat) \<le> of_int n" by simp
      have "x \<le> (2 ^ 52 - 1) / of_int n"
        unfolding x_def using kr n by (intro divide_right_mono) simp_all
      also have "\<dots> \<le> (2 ^ 52 - 1) / 2 ^ 52"
        using nbr by (intro divide_left_mono) simp_all
      finally have "x \<le> (2 ^ 52 - 1) / 2 ^ 52" .
      then have "P < 1" using eP x0 by simp
      then show ?thesis using P0 by (simp add: E0 floor_eq_iff)
    qed
  qed
  then show ?thesis by (simp add: T E_def k_def)
qed

lemma targetLeftToRight_ten: "targetLeftToRight 10800 7 10 = 7560"
  using targetLeftToRight_exact[of 10800 7 10] by simp

lemma navigateToSlide_passes_targetScrollTop:
  assumes "\<not> isScrolling s" and "0 \<le> index" and "index < slideCount ev"
  shows "navigateToSlide ev index tStart tStep s =
           smoothScroll ev (of_int (targetScrollTop (scrollHeight s) index (slideCount ev)))
             True (Some ReleaseLock) tStart tStep
             (setAriaPressed index (s\<lparr>isScrolling := True, currentSlideIndex := index\<rparr>))"
  using assms by (simp add: navigateToSlide_def Let_def setAriaPressed_def)

text \<open>
  Claim C6: the target handed to the animation is
  \<open>floor (scrollHeight * index / slideCount)\<close> in exact arithmetic. The code divides
  first: \<open>index / slideCount\<close> is rounded to a double before it is multiplied. With ten
  slides of 1080 pixels (\<open>ten_loaded\<close>) and index 7 the quotient \<open>7 / 10\<close> is rounded
  down and the product lies just below 7560, so the requested offset is 7559 while the
  exact floor is 7560. The same doubles give 7560 when the product is taken first, and
  they give the exact floor whenever \<open>scrollHeight * index < 2 ^ 52\<close>
  (\<open>targetLeftToRight_exact\<close>); the code's result is never above the exact floor and at
  most one below it (\<open>targetScrollTop_bounds\<close>).
\<close>

theorem target_one_below_exact_floor:
  "scrollToRequests (navigateToSlide (tenEnv True) 7 0 0 tenState) = [(Top, 7559)]
   \<and> \<lfloor>(10800 * 7 / 10 :: rat)\<rfloor> = 7560
   \<and> targetLeftToRight 10800 7 10 = 7560"
  by (simp add: navigateToSlide_def smoothScroll_def setAriaPressed_def tenEnv_def tenState_def
      targetScrollTop_ten targetLeftToRight_ten Let_def floor_eq_iff)

subsection \<open>The wheel listener\<close>

lemma four_loaded: "DOMContentLoaded native fourSlides = Some (fourEnv native, fourState)"
  by (simp add: DOMContentLoaded_def fourSlides_def fourEnv_def fourState_def setAriaPressed_def
      upt_rec numeral_eq_Suc)

lemma traverseParents_iff:
  "traverseParents d chain \<longleftrightarrow> (\<exists>el \<in> set (belowScroller chain). offersNativeScroll d el)"
proof (induction d chain rule: traverseParents.induct)
  case (1 d)
  show ?case by (simp add: belowScroller_def)
next
  case (2 d rest)
  show ?case by (simp add: belowScroller_def)
next
  case (3 d ov st ch sh rest)
  then show ?case by (auto simp: belowScroller_def Let_def)
qed

text \<open>
  Claim C4: a wheel event that arrives while the lock is free, with no element of the chain
  below the scroll container offering native scrolling in the event's direction, is
  consumed: the default is prevented and \<open>navigateToSlide\<close> is called with the current
  index plus the direction, which is 1 for a positive and -1 for a negative \<open>deltaY\<close>. The
  current index moves by that step when the new index is a slide, and stays otherwise.
\<close>

theorem wheel_navigates:
  assumes "\<not> isScrolling s"
    and "\<forall>el \<in> set (belowScroller (targetChain e)). \<not> offersNativeScroll (scrollDirectionOf e) el"
  shows "wheelListener ev e tStart tStep s =
           (\<lparr>defaultPrevented = True,
             navigateCalledWith = Some (currentSlideIndex s + scrollDirectionOf e)\<rparr>,
            navigateToSlide ev (currentSlideIndex s + scrollDirectionOf e) tStart tStep s)
    \<and> (0 < deltaY e \<longrightarrow> scrollDirectionOf e = 1)
    \<and> (deltaY e < 0 \<longrightarrow> scrollDirectionOf e = - 1)
    \<and> currentSlideIndex (snd (wheelListener ev e tStart tStep s)) =
         (if 0 \<le> currentSlideIndex s + scrollDirectionOf e
             \<and> currentSlideIndex s + scrollDirectionOf e < slideCount ev
          then currentSlideIndex s + scrollDirectionOf e else currentSlideIndex s)"
proof -
  have "\<not> traverseParents (scrollDirectionOf e) (targetChain e)"
    using assms(2) by (simp add: traverseParents_iff)
  then have w: "wheelListener ev e tStart tStep s =
           (\<lparr>defaultPrevented = True,
             navigateCalledWith = Some (currentSlideIndex s + scrollDirectionOf e)\<rparr>,
            navigateToSlide ev (currentSlideIndex s + scrollDirectionOf e) tStart tStep s)"
    using assms(1) by (simp add: wheelListener_def Let_def)
  show ?thesis
    unfolding w using assms(1)
    by (simp add: currentSlideIndex_navigateToSlide scrollDirectionOf_def)
qed

text \<open>
  Claim C5: a wheel event that arrives while the lock is free, with some element of the
  chain below the scroll container offering native scrolling in the event's direction, is
  left to the browser: the default is not prevented, \<open>navigateToSlide\<close> is not called and
  the state, the current index included, does not change.
\<close>

theorem wheel_delegates:
  assumes "\<not> isScrolling s"
    and "\<exists>el \<in> set (belowScroller (targetChain e)). offersNativeScroll (scrollDirectionOf e) el"
  shows "wheelListener ev e tStart tStep s =
           (\<lparr>defaultPrevented = False, navigateCalledWith = None\<rparr>, s)"
proof -
  have "traverseParents (scrollDirectionOf e) (targetChain e)"
    using assms(2) by (simp add: traverseParents_iff)
  then show ?thesis
    using assms(1) by (simp add: wheelListener_def Let_def)
qed

theorem wheel_navigates_witness:
  "wheelListener (fourEnv True)
     \<lparr>deltaY = 100, targetChain = [Element ''auto'' 200 600 800, Scroller]\<rparr> 0 0
     (fourState\<lparr>currentSlideIndex := 1\<rparr>)
   = (\<lparr>defaultPrevented = True, navigateCalledWith = Some 2\<rparr>,
      navigateToSlide (fourEnv True) 2 0 0 (fourState\<lparr>currentSlideIndex := 1\<rparr>))
   \<and> currentSlideIndex (snd (wheelListener (fourEnv True)
         \<lparr>deltaY = 100, targetChain = [Element ''auto'' 200 600 800, Scroller]\<rparr> 0 0
         (fourState\<lparr>currentSlideIndex := 1\<rparr>))) = 2"
proof -
  let ?e = "\<lparr>deltaY = 100, targetChain = [Element ''auto'' 200 600 800, Scroller]\<rparr>"
  let ?s = "fourState\<lparr>currentSlideIndex := 1\<rparr>"
  have d: "scrollDirectionOf ?e = 1" by (simp add: scrollDirectionOf_def)
  have h1: "\<not> isScrolling ?s" by (simp add: fourState_def)
  have h2: "\<forall>el \<in> set (belowScroller (targetChain ?e)). \<not> offersNativeScroll (scrollDirectionOf ?e) el"
    by (simp add: d belowScroller_def jsAdd_def jsSub_def roundToDouble_numeral)
  have i: "currentSlideIndex ?s = 1" "slideCount (fourEnv True) = 4"
    by (simp_all add: fourEnv_def)
  note w = wheel_navigates[OF h1 h2, of "fourEnv True" 0 0, unfolded d i]
  have 1: "wheelListener (fourEnv True) ?e 0 0 ?s =
      (\<lparr>defaultPrevented = True, navigateCalledWith = Some 2\<rparr>,
       navigateToSlide (fourEnv True) 2 0 0 ?s)"
    using w[THEN conjunct1] by simp
  have 2: "currentSlideIndex (snd (wheelListener (fourEnv True) ?e 0 0 ?s)) = 2"
    using w[THEN conjunct2, THEN conjunct2, THEN conjunct2] by simp
  from 1 2 show ?thesis by (rule conjI)
qed

theorem wheel_delegates_witness:
  "wheelListener (fourEnv True)
     \<lparr>deltaY = 100, targetChain = [Element ''visible'' 0 20 20, Element ''auto'' 0 300 900, Scroller]\<rparr>
     0 0 fourState
   = (\<lparr>defaultPrevented = False, navigateCalledWith = None\<rparr>, fourState)"
proof -
  let ?e = "\<lparr>deltaY = 100,
             targetChain = [Element ''visible'' 0 20 20, Element ''auto'' 0 300 900, Scroller]\<rparr>"
  have d: "scrollDirectionOf ?e = 1" by (simp add: scrollDirectionOf_def)
  have h1: "\<not> isScrolling fourState" by (simp add: fourState_def)
  have h2: "\<exists>el \<in> set (belowScroller (targetChain ?e)). offersNativeScroll (scrollDirectionOf ?e) el"
    by (simp add: d belowScroller_def jsAdd_def jsSub_def roundToDouble_numeral)
  from wheel_delegates[OF h1 h2, of "fourEnv True" 0 0] show ?thesis .
qed

subsection \<open>The polyfill animation frame by frame\<close>

lemma easingOutQuint_eq: "easingOutQuint x t b c d = quinticEaseOut c b t d"
  by (simp add: easingOutQuint_def quinticEaseOut_def jsPow5_def Let_def)

lemma readKey_writeKey [simp]: "readKey k (writeKey k v s) = v"
  by (cases k) (simp_all add: readKey_def writeKey_def)

lemma readKey_animations_update [simp]: "readKey k (s\<lparr>animations := as\<rparr>) = readKey k s"
  by (cases k) (simp_all add: readKey_def)

lemma readKey_runCallback [simp]: "readKey k (runCallback cb s) = readKey k s"
  by (cases cb; cases k) (simp_all add: readKey_def runCallback_def)

lemma isScrolling_runCallback [simp]: "isScrolling (runCallback ReleaseLock s) = False"
  by (simp add: runCallback_def)

text \<open>
  Claim C9: a call of \<open>step\<close> of an animation that was not interrupted, with \<open>t\<close> the
  clock reading minus \<open>startTime\<close>. While \<open>t\<close> does not exceed the duration
  (\<open>SCROLL_DURATION\<close>, 800) the scroll offset is set to the quintic ease-out
  \<open>gap * ((t / 800 - 1)^5 + 1) + offset\<close>, a further frame is requested and the lock is left
  alone. Once \<open>t\<close> exceeds 800 the offset is set to the target, both listeners are
  detached, no frame is requested and the completion callback runs, which releases the
  lock. An animation frame runs \<open>step\<close> for every animation that requested one.
\<close>

theorem step_eases_then_snaps:
  assumes "k < length (animations s)" and "\<not> interrupt (animations s ! k)"
  shows "(now - startTime (animations s ! k) \<le> 800 \<longrightarrow>
         step k now s =
           (writeKey (key (animations s ! k))
              (quinticEaseOut (gap (animations s ! k)) (offset (animations s ! k))
                 (of_int (now - startTime (animations s ! k))) 800) s)
           \<lparr>animations := (animations s)[k := (animations s ! k)\<lparr>frameRequested := True\<rparr>]\<rparr>
         \<and> readKey (key (animations s ! k)) (step k now s) =
             quinticEaseOut (gap (animations s ! k)) (offset (animations s ! k))
               (of_int (now - startTime (animations s ! k))) 800
         \<and> frameRequested (animations (step k now s) ! k)
         \<and> isScrolling (step k now s) = isScrolling s)
    \<and> (800 < now - startTime (animations s ! k) \<longrightarrow>
         step k now s =
           (case onComplete (animations s ! k) of None \<Rightarrow> id | Some cb \<Rightarrow> runCallback cb)
             ((writeKey (key (animations s ! k)) (target (animations s ! k)) s)
              \<lparr>animations := (animations s)[k := cleanup (animations s ! k)]\<rparr>)
         \<and> readKey (key (animations s ! k)) (step k now s) = target (animations s ! k)
         \<and> \<not> listensWheel (animations (step k now s) ! k)
         \<and> \<not> listensTouchstart (animations (step k now s) ! k)
         \<and> frameRequested (animations (step k now s) ! k) = frameRequested (animations s ! k)
         \<and> (onComplete (animations s ! k) = Some ReleaseLock \<longrightarrow> \<not> isScrolling (step k now s)))"
proof -
  let ?a = "animations s ! k"
  have lo: "now - startTime ?a \<le> 800 \<Longrightarrow> 
         step k now s =
           (writeKey (key ?a)
              (quinticEaseOut (gap ?a) (offset ?a) (of_int (now - startTime ?a)) 800) s)
           \<lparr>animations := (animations s)[k := ?a\<lparr>frameRequested := True\<rparr>]\<rparr>"
    using assms(2)
    by (simp add: step_def Let_def percentage_gt_one_diff_iff easingOutQuint_eq
        SCROLL_DURATION_def[symmetric])
  have hi: "800 < now - startTime ?a \<Longrightarrow>
         step k now s =
           (case onComplete ?a of None \<Rightarrow> id | Some cb \<Rightarrow> runCallback cb)
             ((writeKey (key ?a) (target ?a) s)
              \<lparr>animations := (animations s)[k := cleanup ?a]\<rparr>)"
    using assms(2)
    by (simp add: step_def Let_def percentage_gt_one_diff_iff split: option.splits)
  have lo2: "now - startTime ?a \<le> 800 \<Longrightarrow>
       readKey (key ?a) (step k now s) =
             quinticEaseOut (gap ?a) (offset ?a) (of_int (now - startTime ?a)) 800
         \<and> frameRequested (animations (step k now s) ! k)
         \<and> isScrolling (step k now s) = isScrolling s"
    using assms(1) by (simp add: lo)
  have hi2: "800 < now - startTime ?a \<Longrightarrow>
       readKey (key ?a) (step k now s) = target ?a
         \<and> \<not> listensWheel (animations (step k now s) ! k)
         \<and> \<not> listensTouchstart (animations (step k now s) ! k)
         \<and> frameRequested (animations (step k now s) ! k) = frameRequested ?a
         \<and> (onComplete ?a = Some ReleaseLock \<longrightarrow> \<not> isScrolling (step k now s))"
    using assms(1) by (auto simp add: hi split: option.splits)
  show ?thesis using lo hi lo2 hi2 by blast
qed

lemmas jsArith = jsAdd_def jsSub_def jsMul_def jsDiv_def roundToDouble_numeral
  roundToDouble_minus

lemma quinticEaseOut_start: "quinticEaseOut 800 0 0 800 = 0"
  by (simp add: quinticEaseOut_def jsPow5_def jsArith)

lemma quinticEaseOut_end: "quinticEaseOut 800 0 800 800 = 800"
  by (simp add: quinticEaseOut_def jsPow5_def jsArith)

lemma targetScrollTop_four: "targetScrollTop 3200 1 4 = 800"
  by code_simp

lemma fourAnimating_reached:
  "dispatch (fourEnv False) fourState (Click 1 0 0) = fourAnimating"
  by (simp add: clickListener_def navigateToSlide_def smoothScroll_def smoothScrollPolyfill_def
      step_def setAriaPressed_def fourEnv_def fourState_def fourAnimating_def Let_def
      readKey_def writeKey_def easingOutQuint_eq
      SCROLL_DURATION_def jsArith targetScrollTop_four quinticEaseOut_start)

theorem step_eases_then_snaps_witness:
  "readKey ScrollTop (step 0 800 fourAnimating) = 800
   \<and> isScrolling (step 0 800 fourAnimating)
   \<and> frameRequested (animations (step 0 800 fourAnimating) ! 0)
   \<and> readKey ScrollTop (step 0 801 fourAnimating) = 800
   \<and> \<not> isScrolling (step 0 801 fourAnimating)
   \<and> \<not> listensWheel (animations (step 0 801 fourAnimating) ! 0)"
proof -
  have h: "0 < length (animations fourAnimating)" "\<not> interrupt (animations fourAnimating ! 0)"
    by (simp_all add: fourAnimating_def)
  have a: "animations fourAnimating ! 0 =
      \<lparr>key = ScrollTop, target = 800, onComplete = Some ReleaseLock, startTime = 0,
       offset = 0, gap = 800, interrupt = False, listensWheel = True,
       listensTouchstart = True, frameRequested = True\<rparr>"
    by (simp add: fourAnimating_def)
  have l: "isScrolling fourAnimating" by (simp add: fourAnimating_def)
  have lo: "800 - startTime (animations fourAnimating ! 0) \<le> 800" by (simp add: a)
  have hi: "800 < 801 - startTime (animations fourAnimating ! 0)" by (simp add: a)
  note w1 = step_eases_then_snaps[OF h, of 800, THEN conjunct1, rule_format, OF lo,
      THEN conjunct2]
  note w2 = step_eases_then_snaps[OF h, of 801, THEN conjunct2, rule_format, OF hi,
      THEN conjunct2]
  have 1: "readKey ScrollTop (step 0 800 fourAnimating) = 800"
    using w1[THEN conjunct1] by (simp add: a quinticEaseOut_end)
  have 2: "isScrolling (step 0 800 fourAnimating)"
    using w1[THEN conjunct2, THEN conjunct2] l by simp
  have 3: "frameRequested (animations (step 0 800 fourAnimating) ! 0)"
    using w1[THEN conjunct2, THEN conjunct1] .
  have 4: "readKey ScrollTop (step 0 801 fourAnimating) = 800"
    using w2[THEN conjunct1] by (simp add: a)
  have 5: "\<not> isScrolling (step 0 801 fourAnimating)"
    using w2[THEN conjunct2, THEN conjunct2, THEN conjunct2, THEN conjunct2] by (simp add: a)
  have 6: "\<not> listensWheel (animations (step 0 801 fourAnimating) ! 0)"
    using w2[THEN conjunct2, THEN conjunct1] .
  from 1 2 3 4 5 6 show ?thesis by blast
qed

subsection \<open>Cancellation\<close>

lemma animations_smoothScrollPolyfill:
  "animations (smoothScrollPolyfill ky tgt cb tStart tStep s) =
     animations s @
       [(if 800 < tStep - tStart
         then cleanup else (\<lambda>a. a\<lparr>frameRequested := True\<rparr>))
          \<lparr>key = ky, target = tgt, onComplete = cb, startTime = tStart, offset = readKey ky s,
           gap = jsSub tgt (readKey ky s), interrupt = False, listensWheel = True,
           listensTouchstart = True, frameRequested = False\<rparr>]"
  by (simp add: smoothScrollPolyfill_def animations_step Let_def)

lemma animations_smoothScroll:
  "animations (smoothScroll ev v b cb tStart tStep s) =
     (if hasNativeSmoothScroll ev then animations s
      else animations (smoothScrollPolyfill (if b then ScrollTop else ScrollLeft) v cb tStart tStep s))"
  by (simp add: smoothScroll_def Let_def split: option.splits)

lemma animations_setAriaPressed [simp]: "animations (setAriaPressed i s) = animations s"
  by (simp add: setAriaPressed_def)

lemma readKey_setAriaPressed [simp]: "readKey k (setAriaPressed i s) = readKey k s"
  by (cases k) (simp_all add: setAriaPressed_def readKey_def)

lemma animations_navigateToSlide_prefix:
  "take (length (animations s)) (animations (navigateToSlide ev i tStart tStep s)) = animations s"
  by (simp add: navigateToSlide_def Let_def animations_smoothScroll animations_smoothScrollPolyfill)

lemma length_animations_navigateToSlide:
  "length (animations s) \<le> length (animations (navigateToSlide ev i tStart tStep s))"
  by (simp add: navigateToSlide_def Let_def animations_smoothScroll animations_smoothScrollPolyfill)

lemma nth_animations_navigateToSlide:
  "k < length (animations s) \<Longrightarrow>
   animations (navigateToSlide ev i tStart tStep s) ! k = animations s ! k"
  using animations_navigateToSlide_prefix[of s ev i tStart tStep]
  by (metis nth_take)

lemma animations_wheelListener_prefix:
  "take (length (animations s)) (animations (snd (wheelListener ev e tStart tStep s))) = animations s"
  by (simp add: wheelListener_def Let_def animations_navigateToSlide_prefix)

lemma length_animations_wheelListener:
  "length (animations s) \<le> length (animations (snd (wheelListener ev e tStart tStep s)))"
  by (simp add: wheelListener_def Let_def length_animations_navigateToSlide)

lemma nth_cancelOnWheel:
  "k < n \<Longrightarrow> k < length as \<Longrightarrow>
   cancelOnWheel n as ! k = (if listensWheel (as ! k) then cancel (as ! k) else as ! k)"
  by (simp add: cancelOnWheel_def nth_append)

lemma length_cancelOnWheel [simp]: "length (cancelOnWheel n as) = length as"
  by (simp add: cancelOnWheel_def)

lemma nth_animations_wheel:
  assumes "k < length (animations s)"
  shows "animations (dispatch ev s (Wheel e tStart tStep)) ! k =
     (if listensWheel (animations s ! k) then cancel (animations s ! k) else animations s ! k)"
proof -
  let ?s1 = "snd (wheelListener ev e tStart tStep s)"
  have l: "k < length (animations ?s1)"
    using assms length_animations_wheelListener[of s ev e tStart tStep] by simp
  have "animations ?s1 ! k = take (length (animations s)) (animations ?s1) ! k"
    using assms by simp
  then have n: "animations ?s1 ! k = animations s ! k"
    by (simp only: animations_wheelListener_prefix)
  show ?thesis
    using assms l by (simp add: Let_def nth_cancelOnWheel n)
qed

lemma nth_animations_touchstart:
  assumes "k < length (animations s)"
  shows "animations (dispatch ev s Touchstart) ! k =
     (if listensTouchstart (animations s ! k) then cancel (animations s ! k) else animations s ! k)"
  using assms by (simp add: cancelOnTouchstart_def)

lemma length_animations_dispatch:
  "length (animations s) \<le> length (animations (dispatch ev s x))"
proof (cases x)
  case (Click i ta tb)
  then show ?thesis by (simp add: clickListener_def length_animations_navigateToSlide)
next
  case (Wheel e ta tb)
  then show ?thesis by (simp add: Let_def length_animations_wheelListener)
next
  case Touchstart
  then show ?thesis by (simp add: cancelOnTouchstart_def)
next
  case (AnimationFrame now)
  then show ?thesis by simp
next
  case TimeoutFired
  then show ?thesis by (simp add: timeoutFired_def split: list.splits)
qed

lemma cancelled_frameCallback:
  assumes "k < length (animations s)" and "cancelled (animations s ! k)"
  shows "cancelled (animations (frameCallback now s j) ! k)"
proof (cases "j = k")
  case True
  then show ?thesis
    using assms by (simp add: animations_frameCallback Let_def cancelled_def)
next
  case False
  then show ?thesis
    using assms by (simp add: animations_frameCallback Let_def)
qed

lemma cancelled_animationFrame:
  assumes "k < length (animations s)" and "cancelled (animations s ! k)"
  shows "cancelled (animations (animationFrame now s) ! k)"
proof -
  have "length (animations (animationFrame now s)) = length (animations s)
        \<and> cancelled (animations (animationFrame now s) ! k)"
    unfolding animationFrame_def
    by (rule foldl_frameCallback_invariant[where P = "\<lambda>s'. length (animations s') = length (animations s)
            \<and> cancelled (animations s' ! k)"])
       (use assms in \<open>simp_all add: cancelled_frameCallback\<close>)
  then show ?thesis by simp
qed

lemma cancelled_dispatch:
  assumes "k < length (animations s)" and "cancelled (animations s ! k)"
  shows "cancelled (animations (dispatch ev s x) ! k)"
proof (cases x)
  case (Click i ta tb)
  then show ?thesis using assms by (simp add: clickListener_def nth_animations_navigateToSlide)
next
  case (Wheel e ta tb)
  then show ?thesis
    using assms nth_animations_wheel[OF assms(1), of ev e ta tb] by (simp add: cancelled_def)
next
  case Touchstart
  then show ?thesis
    using assms nth_animations_touchstart[OF assms(1), of ev] by (simp add: cancelled_def)
next
  case (AnimationFrame now)
  then show ?thesis using assms by (simp add: cancelled_animationFrame)
next
  case TimeoutFired
  then show ?thesis using assms by (simp add: timeoutFired_def split: list.splits)
qed

lemma cancelled_run:
  assumes "k < length (animations s)" and "cancelled (animations s ! k)"
  shows "k < length (animations (run ev evs s)) \<and> cancelled (animations (run ev evs s) ! k)"
  using assms
proof (induction evs arbitrary: s)
  case Nil
  then show ?case by (simp add: run_def)
next
  case (Cons x evs)
  have l: "k < length (animations (dispatch ev s x))"
    using Cons.prems(1) length_animations_dispatch[of s ev x] by simp
  have c: "cancelled (animations (dispatch ev s x) ! k)"
    using Cons.prems by (rule cancelled_dispatch)
  from Cons.IH[OF l c] show ?case by (simp add: run_def)
qed

lemma interrupt_kept_by_other_events:
  assumes "k < length (animations s)"
    and "x \<noteq> Touchstart" and "\<forall>e ta tb. x \<noteq> Wheel e ta tb"
  shows "interrupt (animations (dispatch ev s x) ! k) = interrupt (animations s ! k)"
proof (cases x)
  case (Click i ta tb)
  then show ?thesis using assms by (simp add: clickListener_def nth_animations_navigateToSlide)
next
  case (Wheel e ta tb)
  then show ?thesis using assms by simp
next
  case Touchstart
  then show ?thesis using assms by simp
next
  case (AnimationFrame now)
  have "interrupt (animations (animationFrame now s) ! k) =
        map interrupt (animations (animationFrame now s)) ! k"
    using assms(1) by (simp del: map_interrupt_animationFrame)
  also have "\<dots> = map interrupt (animations s) ! k"
    by (simp only: map_interrupt_animationFrame)
  also have "\<dots> = interrupt (animations s ! k)"
    using assms(1) by simp
  finally show ?thesis using AnimationFrame by simp
next
  case TimeoutFired
  then show ?thesis by (simp add: timeoutFired_def split: list.splits)
qed

text \<open>
  Claim C8: a wheel or \<open>touchstart\<close> event on the scroll container cancels every animation
  whose \<open>cancel\<close> listener is attached: its flag is set and both listeners are detached.
  A cancelled animation stays cancelled whatever happens later, and every later call of its
  \<open>step\<close> returns the state as it found it, so it never writes the scroll offset again.
  No click, animation frame or timer sets the flag of an animation: only those two inputs do.
\<close>

theorem input_cancels_for_good:
  assumes "k < length (animations s)"
  shows "(listensWheel (animations s ! k) \<longrightarrow>
            cancelled (animations (dispatch ev s (Wheel e tStart tStep)) ! k))
    \<and> (listensTouchstart (animations s ! k) \<longrightarrow>
            cancelled (animations (dispatch ev s Touchstart) ! k))
    \<and> (cancelled (animations s ! k) \<longrightarrow>
          (\<forall>later now. cancelled (animations (run ev later s) ! k)
             \<and> step k now (run ev later s) = run ev later s))
    \<and> (\<forall>x. \<not> interrupt (animations s ! k) \<and> interrupt (animations (dispatch ev s x) ! k)
           \<longrightarrow> x = Touchstart \<or> (\<exists>e' ta tb. x = Wheel e' ta tb))"
proof -
  have 1: "listensWheel (animations s ! k) \<longrightarrow>
            cancelled (animations (dispatch ev s (Wheel e tStart tStep)) ! k)"
    using nth_animations_wheel[OF assms, of ev e tStart tStep] by (simp add: cancelled_def)
  have 2: "listensTouchstart (animations s ! k) \<longrightarrow>
            cancelled (animations (dispatch ev s Touchstart) ! k)"
    using nth_animations_touchstart[OF assms, of ev] by (simp add: cancelled_def)
  have 3: "cancelled (animations s ! k) \<longrightarrow>
          (\<forall>later now. cancelled (animations (run ev later s) ! k)
             \<and> step k now (run ev later s) = run ev later s)"
  proof (intro impI allI)
    fix later now
    assume c: "cancelled (animations s ! k)"
    from cancelled_run[OF assms c, of ev later]
    have c': "cancelled (animations (run ev later s) ! k)" by simp
    then have "interrupt (animations (run ev later s) ! k)" by (simp add: cancelled_def)
    then have "step k now (run ev later s) = run ev later s" by (rule step_interrupted)
    with c' show "cancelled (animations (run ev later s) ! k)
             \<and> step k now (run ev later s) = run ev later s" by simp
  qed
  have 4: "\<forall>x. \<not> interrupt (animations s ! k) \<and> interrupt (animations (dispatch ev s x) ! k)
           \<longrightarrow> x = Touchstart \<or> (\<exists>e' ta tb. x = Wheel e' ta tb)"
    using interrupt_kept_by_other_events[OF assms, of _ ev] by blast
  from 1 2 3 4 show ?thesis by blast
qed

lemma fourAnimating_touched:
  "dispatch (fourEnv False) fourAnimating Touchstart =
     fourAnimating\<lparr>animations := [cancel (animations fourAnimating ! 0)]\<rparr>"
  by (simp add: cancelOnTouchstart_def fourAnimating_def)

theorem input_cancels_for_good_witness:
  "cancelled (animations (dispatch (fourEnv False) fourAnimating Touchstart) ! 0)
   \<and> cancelled (animations (dispatch (fourEnv False) fourAnimating
        (Wheel \<lparr>deltaY = 100, targetChain = [Scroller]\<rparr> 100 100)) ! 0)
   \<and> step 0 900 (run (fourEnv False) [AnimationFrame 116, AnimationFrame 900]
        (dispatch (fourEnv False) fourAnimating Touchstart))
      = run (fourEnv False) [AnimationFrame 116, AnimationFrame 900]
        (dispatch (fourEnv False) fourAnimating Touchstart)
   \<and> \<not> interrupt (animations (dispatch (fourEnv False) fourAnimating (AnimationFrame 116)) ! 0)"
proof -
  let ?ev = "fourEnv False"
  let ?s' = "dispatch ?ev fourAnimating Touchstart"
  have k: "0 < length (animations fourAnimating)" by (simp add: fourAnimating_def)
  have l: "listensWheel (animations fourAnimating ! 0)"
    "listensTouchstart (animations fourAnimating ! 0)"
    by (simp_all add: fourAnimating_def)
  note w = input_cancels_for_good[OF k, of ?ev "\<lparr>deltaY = 100, targetChain = [Scroller]\<rparr>" 100 100]
  have 1: "cancelled (animations ?s' ! 0)"
    using w[THEN conjunct2, THEN conjunct1] l(2) by simp
  have 2: "cancelled (animations (dispatch ?ev fourAnimating
        (Wheel \<lparr>deltaY = 100, targetChain = [Scroller]\<rparr> 100 100)) ! 0)"
    using w[THEN conjunct1] l(1) by simp
  have k': "0 < length (animations ?s')" by (simp add: cancelOnTouchstart_def fourAnimating_def)
  from input_cancels_for_good[OF k', of ?ev, THEN conjunct2, THEN conjunct2, THEN conjunct1,
      rule_format, OF 1, of "[AnimationFrame 116, AnimationFrame 900]" 900]
  have 3: "step 0 900 (run ?ev [AnimationFrame 116, AnimationFrame 900] ?s')
      = run ?ev [AnimationFrame 116, AnimationFrame 900] ?s'" by simp
  have n: "\<not> interrupt (animations fourAnimating ! 0)" by (simp add: fourAnimating_def)
  have 4: "\<not> interrupt (animations (dispatch ?ev fourAnimating (AnimationFrame 116)) ! 0)"
    using w[THEN conjunct2, THEN conjunct2, THEN conjunct2, rule_format, of "AnimationFrame 116"] n
    by auto
  from 1 2 3 4 show ?thesis by blast
qed

subsection \<open>A wheel event without vertical movement\<close>

lemma indexInRange_navigateToSlide:
  "indexInRange ev s \<Longrightarrow> indexInRange ev (navigateToSlide ev i tStart tStep s)"
  by (auto simp: indexInRange_def currentSlideIndex_navigateToSlide)

lemma indexInRange_animations_update [simp]:
  "indexInRange ev (s\<lparr>animations := as\<rparr>) = indexInRange ev s"
  by (simp add: indexInRange_def)

lemma indexInRange_dispatch:
  assumes "indexInRange ev s"
  shows "indexInRange ev (dispatch ev s x)"
proof (cases x)
  case (Click i ta tb)
  then show ?thesis using assms by (simp add: clickListener_def indexInRange_navigateToSlide)
next
  case (Wheel e ta tb)
  then show ?thesis
    using assms by (simp add: Let_def wheelListener_def indexInRange_navigateToSlide)
next
  case Touchstart
  then show ?thesis using assms by simp
next
  case (AnimationFrame now)
  then show ?thesis using assms by (simp add: indexInRange_def)
next
  case TimeoutFired
  then show ?thesis
    using assms by (simp add: timeoutFired_def indexInRange_def split: list.splits)
qed

lemma indexInRange_run: "indexInRange ev s \<Longrightarrow> indexInRange ev (run ev evs s)"
proof (induction evs arbitrary: s)
  case Nil
  then show ?case by (simp add: run_def)
next
  case (Cons x evs)
  from Cons.IH[OF indexInRange_dispatch[OF Cons.prems]] show ?case by (simp add: run_def)
qed

lemma indexInRange_loaded:
  "DOMContentLoaded native pg = Some (ev, s0) \<Longrightarrow> indexInRange ev s0"
  by (auto simp: DOMContentLoaded_def indexInRange_def setAriaPressed_def split: option.splits)

text \<open>
  Claim C10: a wheel event with \<open>deltaY = 0\<close> has direction -1. In a state reached from
  start-up with the lock free, and with no element below the scroll container offering
  native scrolling upwards, the listener prevents the default and calls
  \<open>navigateToSlide\<close> with the current index minus one; the index is decremented when it
  is positive and stays at 0 otherwise.
\<close>

theorem wheel_zero_delta_goes_up:
  assumes "DOMContentLoaded native pg = Some (ev, s0)" and "s = run ev evs s0"
    and "deltaY e = 0" and "\<not> isScrolling s"
    and "\<forall>el \<in> set (belowScroller (targetChain e)). \<not> offersNativeScroll (- 1) el"
  shows "scrollDirectionOf e = - 1
    \<and> wheelListener ev e tStart tStep s =
         (\<lparr>defaultPrevented = True, navigateCalledWith = Some (currentSlideIndex s - 1)\<rparr>,
          navigateToSlide ev (currentSlideIndex s - 1) tStart tStep s)
    \<and> (0 < currentSlideIndex s \<longrightarrow>
          currentSlideIndex (snd (wheelListener ev e tStart tStep s)) = currentSlideIndex s - 1)
    \<and> (currentSlideIndex s \<le> 0 \<longrightarrow>
          currentSlideIndex (snd (wheelListener ev e tStart tStep s)) = currentSlideIndex s)"
proof -
  have d: "scrollDirectionOf e = - 1" using assms(3) by (simp add: scrollDirectionOf_def)
  have r: "indexInRange ev s"
    unfolding assms(2) using indexInRange_loaded[OF assms(1)] by (rule indexInRange_run)
  have "\<not> traverseParents (- 1) (targetChain e)"
    using assms(5) by (simp add: traverseParents_iff)
  then have w: "wheelListener ev e tStart tStep s =
         (\<lparr>defaultPrevented = True, navigateCalledWith = Some (currentSlideIndex s - 1)\<rparr>,
          navigateToSlide ev (currentSlideIndex s - 1) tStart tStep s)"
    using assms(4) by (simp add: wheelListener_def Let_def d)
  have i: "0 < currentSlideIndex s \<longrightarrow>
          currentSlideIndex (snd (wheelListener ev e tStart tStep s)) = currentSlideIndex s - 1"
    unfolding w using r assms(4)
    by (auto simp: currentSlideIndex_navigateToSlide indexInRange_def)
  have j: "currentSlideIndex s \<le> 0 \<longrightarrow>
          currentSlideIndex (snd (wheelListener ev e tStart tStep s)) = currentSlideIndex s"
    unfolding w by (simp add: currentSlideIndex_navigateToSlide)
  from d w i j show ?thesis by blast
qed

lemma four_after_click_and_timeout:
  "run (fourEnv True) [Click 2 0 0, TimeoutFired] fourState =
     fourState\<lparr>currentSlideIndex := 2, ariaPressed := [False, False, True, False],
       scrollToRequests := [(Top, of_int (targetScrollTop 3200 2 4))]\<rparr>"
  by (simp add: run_def clickListener_def navigateToSlide_def smoothScroll_def setAriaPressed_def
      timeoutFired_def runCallback_def fourEnv_def fourState_def Let_def)

theorem wheel_zero_delta_goes_up_witness:
  "scrollDirectionOf \<lparr>deltaY = 0, targetChain = [Scroller]\<rparr> = - 1
   \<and> currentSlideIndex (run (fourEnv True) [Click 2 0 0, TimeoutFired] fourState) = 2
   \<and> currentSlideIndex (snd (wheelListener (fourEnv True) \<lparr>deltaY = 0, targetChain = [Scroller]\<rparr>
        900 900 (run (fourEnv True) [Click 2 0 0, TimeoutFired] fourState))) = 1"
proof -
  let ?e = "\<lparr>deltaY = 0, targetChain = [Scroller]\<rparr>"
  let ?s = "run (fourEnv True) [Click 2 0 0, TimeoutFired] fourState"
  have h1: "DOMContentLoaded True fourSlides = Some (fourEnv True, fourState)" by (rule four_loaded)
  have h2: "?s = run (fourEnv True) [Click 2 0 0, TimeoutFired] fourState" by (rule refl)
  have h3: "deltaY ?e = 0" by simp
  have h4: "\<not> isScrolling ?s"
    unfolding four_after_click_and_timeout by (simp add: fourState_def)
  have h5: "\<forall>el \<in> set (belowScroller (targetChain ?e)). \<not> offersNativeScroll (- 1) el"
    by (simp add: belowScroller_def)
  have i: "currentSlideIndex ?s = 2" by (simp add: four_after_click_and_timeout)
  note w = wheel_zero_delta_goes_up[OF h1 h2 h3 h4 h5, of 900 900]
  have 1: "scrollDirectionOf ?e = - 1" using w[THEN conjunct1] .
  have 3: "currentSlideIndex (snd (wheelListener (fourEnv True) ?e 900 900 ?s)) = 1"
    using w[THEN conjunct2, THEN conjunct2, THEN conjunct1] i by simp
  from 1 i 3 show ?thesis by blast
qed

subsection \<open>The lock after an interruption\<close>

lemma foldl_frameCallback_indexed:
  assumes "P s" and "\<And>s k. P s \<Longrightarrow> k \<in> set ks \<Longrightarrow> P (frameCallback now s k)"
  shows "P (foldl (frameCallback now) s ks)"
  using assms
proof (induction ks arbitrary: s)
  case Nil
  then show ?case by simp
next
  case (Cons k ks)
  have "P (frameCallback now s k)" using Cons.prems by simp
  then have "P (foldl (frameCallback now) (frameCallback now s k) ks)"
    using Cons.prems(2) by (intro Cons.IH) simp_all
  then show ?case by simp
qed

lemma animationFrame_invariant:
  assumes "P s"
    and "\<And>s' k. P s' \<Longrightarrow> length (animations s') = length (animations s)
           \<Longrightarrow> k < length (animations s') \<Longrightarrow> P (frameCallback now s' k)"
  shows "P (animationFrame now s)"
proof -
  have "P (animationFrame now s) \<and> length (animations (animationFrame now s)) = length (animations s)"
    unfolding animationFrame_def
    by (rule foldl_frameCallback_indexed[where P = "\<lambda>s'. P s' \<and> length (animations s') = length (animations s)"])
       (use assms in simp_all)
  then show ?thesis by simp
qed

lemma frameCallback_not_live:
  assumes "k < length (animations s)" and "\<not> live (animations s ! k)"
  shows "frameCallback now s k =
     s\<lparr>animations := (animations s)[k := (animations s ! k)\<lparr>frameRequested := False\<rparr>]\<rparr>"
proof (cases "frameRequested (animations s ! k)")
  case True
  then have "interrupt (animations s ! k)" using assms(2) by (simp add: live_def)
  then show ?thesis using True assms(1) by (simp add: frameCallback_def step_def)
next
  case False
  then have "(animations s ! k)\<lparr>frameRequested := False\<rparr> = animations s ! k" by simp
  then have "(animations s)[k := (animations s ! k)\<lparr>frameRequested := False\<rparr>] = animations s"
    by (simp only: list_update_id)
  then show ?thesis using False by (simp add: frameCallback_def)
qed

lemma not_live_update:
  assumes "\<forall>a \<in> set as. \<not> live a" and "\<not> live b"
  shows "\<forall>a \<in> set (as[k := b]). \<not> live a"
  using assms set_update_subset_insert[of as k b] by auto

lemma stuck_frameCallback:
  assumes "stuck s" and "k < length (animations s)"
  shows "stuck (frameCallback now s k)
    \<and> currentSlideIndex (frameCallback now s k) = currentSlideIndex s
    \<and> scrollTop (frameCallback now s k) = scrollTop s
    \<and> scrollLeft (frameCallback now s k) = scrollLeft s"
proof -
  have n: "\<not> live (animations s ! k)" using assms by (simp add: stuck_def)
  have "\<not> live ((animations s ! k)\<lparr>frameRequested := False\<rparr>)" by (simp add: live_def)
  then have "\<forall>a \<in> set ((animations s)[k := (animations s ! k)\<lparr>frameRequested := False\<rparr>]). \<not> live a"
    using assms(1) by (intro not_live_update) (simp_all add: stuck_def)
  then show ?thesis
    using assms(1) unfolding frameCallback_not_live[OF assms(2) n] by (simp add: stuck_def)
qed

lemma stuck_animationFrame:
  assumes "stuck s"
  shows "stuck (animationFrame now s)
    \<and> currentSlideIndex (animationFrame now s) = currentSlideIndex s
    \<and> scrollTop (animationFrame now s) = scrollTop s
    \<and> scrollLeft (animationFrame now s) = scrollLeft s"
  by (rule animationFrame_invariant[where P = "\<lambda>s'. stuck s'
        \<and> currentSlideIndex s' = currentSlideIndex s \<and> scrollTop s' = scrollTop s
        \<and> scrollLeft s' = scrollLeft s"])
     (use assms stuck_frameCallback in simp_all)

lemma not_live_cancel [simp]: "\<not> live (cancel a)"
  by (simp add: live_def)

lemma stuck_dispatch:
  assumes "stuck s"
  shows "stuck (dispatch ev s x)
    \<and> currentSlideIndex (dispatch ev s x) = currentSlideIndex s
    \<and> scrollTop (dispatch ev s x) = scrollTop s
    \<and> scrollLeft (dispatch ev s x) = scrollLeft s"
proof (cases x)
  case (Click i ta tb)
  then show ?thesis
    using assms by (simp add: clickListener_def navigateToSlide_def stuck_def)
next
  case (Wheel e ta tb)
  then show ?thesis
    using assms by (auto simp: wheelListener_def stuck_def cancelOnWheel_def)
next
  case Touchstart
  then show ?thesis
    using assms by (auto simp: stuck_def cancelOnTouchstart_def)
next
  case (AnimationFrame now)
  then show ?thesis using stuck_animationFrame[OF assms] by simp
next
  case TimeoutFired
  then show ?thesis using assms by (simp add: timeoutFired_def stuck_def)
qed

lemma stuck_run:
  assumes "stuck s"
  shows "stuck (run ev evs s)
    \<and> currentSlideIndex (run ev evs s) = currentSlideIndex s
    \<and> scrollTop (run ev evs s) = scrollTop s
    \<and> scrollLeft (run ev evs s) = scrollLeft s"
  using assms
proof (induction evs arbitrary: s)
  case Nil
  then show ?case by (simp add: run_def)
next
  case (Cons x evs)
  note d = stuck_dispatch[OF Cons.prems, of ev x]
  from Cons.IH[of "dispatch ev s x"] d show ?case by (simp add: run_def)
qed

lemma timeouts_smoothScrollPolyfill [simp]:
  "timeouts (smoothScrollPolyfill ky tgt cb tStart tStep s) = timeouts s"
  by (simp add: smoothScrollPolyfill_def Let_def)

lemma consistent_navigateToSlide:
  assumes "consistent ev s"
  shows "consistent ev (navigateToSlide ev i tStart tStep s)"
proof (cases "hasNativeSmoothScroll ev")
  case True
  then show ?thesis
    using assms
    by (simp add: consistent_def navigateToSlide_def Let_def animations_smoothScroll)
next
  case False
  then show ?thesis
    using assms
    by (auto simp: consistent_def navigateToSlide_def Let_def animations_smoothScroll
        animations_smoothScrollPolyfill smoothScroll_def live_def setAriaPressed_def)
qed

lemma consistent_update:
  assumes "consistent ev s" and "k < length (animations s)"
    and "live b \<longrightarrow> listensWheel b \<and> listensTouchstart b"
  shows "consistent ev (s\<lparr>animations := (animations s)[k := b]\<rparr>)"
proof -
  have "\<forall>a \<in> set ((animations s)[k := b]). live a \<longrightarrow> listensWheel a \<and> listensTouchstart a"
    using assms(1,3) set_update_subset_insert[of "animations s" k b]
    by (auto simp: consistent_def)
  moreover have "\<not> hasNativeSmoothScroll ev" using assms(1,2) by (auto simp: consistent_def)
  ultimately show ?thesis using assms(1) by (simp add: consistent_def)
qed

lemma consistent_cong:
  "animations s' = animations s \<Longrightarrow> timeouts s' = timeouts s \<Longrightarrow>
   consistent ev s' = consistent ev s"
  by (simp add: consistent_def)

lemma consistent_frameCallback:
  assumes "consistent ev s" and "k < length (animations s)"
  shows "consistent ev (frameCallback now s k)"
proof -
  let ?a = "animations s ! k"
  have a: "live ?a \<longrightarrow> listensWheel ?a \<and> listensTouchstart ?a"
    using assms by (simp add: consistent_def)
  define b where "b = (if \<not> frameRequested ?a then ?a
      else if interrupt ?a then ?a\<lparr>frameRequested := False\<rparr>
      else if 800 < now - startTime ?a then cleanup (?a\<lparr>frameRequested := False\<rparr>)
      else ?a)"
  have an: "animations (frameCallback now s k) = (animations s)[k := b]"
    by (simp add: animations_frameCallback Let_def b_def)
  have tn: "timeouts (frameCallback now s k) = timeouts s" by simp
  have "live b \<longrightarrow> listensWheel b \<and> listensTouchstart b"
    using a by (auto simp: b_def live_def)
  from consistent_update[OF assms this] have "consistent ev (s\<lparr>animations := (animations s)[k := b]\<rparr>)" .
  moreover have "consistent ev (frameCallback now s k) =
      consistent ev (s\<lparr>animations := (animations s)[k := b]\<rparr>)"
    by (rule consistent_cong) (simp_all add: an)
  ultimately show ?thesis by simp
qed

lemma consistent_animationFrame:
  assumes "consistent ev s"
  shows "consistent ev (animationFrame now s)"
  by (rule animationFrame_invariant[where P = "consistent ev"])
     (use assms consistent_frameCallback in simp_all)

lemma consistent_cancelOnTouchstart:
  assumes "consistent ev s"
  shows "consistent ev (s\<lparr>animations := cancelOnTouchstart (animations s)\<rparr>)"
  using assms by (auto simp: consistent_def cancelOnTouchstart_def)

lemma set_cancelOnWheel:
  "a \<in> set (cancelOnWheel n as) \<Longrightarrow> a \<in> set as \<or> (\<exists>b \<in> set as. a = cancel b)"
  by (auto simp: cancelOnWheel_def dest: in_set_takeD in_set_dropD)

lemma cancelOnWheel_Nil_iff [simp]: "cancelOnWheel n as = [] \<longleftrightarrow> as = []"
  by (cases as) (auto simp: cancelOnWheel_def)

lemma consistent_cancelOnWheel:
  assumes "consistent ev s"
  shows "consistent ev (s\<lparr>animations := cancelOnWheel n (animations s)\<rparr>)"
  using assms by (auto simp: consistent_def dest!: set_cancelOnWheel)

lemma consistent_dispatch:
  assumes "consistent ev s"
  shows "consistent ev (dispatch ev s x)"
proof (cases x)
  case (Click i ta tb)
  then show ?thesis using assms by (simp add: clickListener_def consistent_navigateToSlide)
next
  case (Wheel e ta tb)
  have "consistent ev (snd (wheelListener ev e ta tb s))"
    using assms by (simp add: wheelListener_def Let_def consistent_navigateToSlide)
  then show ?thesis using Wheel by (simp add: Let_def consistent_cancelOnWheel)
next
  case Touchstart
  then show ?thesis using assms by (simp add: consistent_cancelOnTouchstart)
next
  case (AnimationFrame now)
  then show ?thesis using assms by (simp add: consistent_animationFrame)
next
  case TimeoutFired
  then show ?thesis
    using assms by (cases "timeouts s") (auto simp: timeoutFired_def consistent_def)
qed

lemma consistent_run: "consistent ev s \<Longrightarrow> consistent ev (run ev evs s)"
proof (induction evs arbitrary: s)
  case Nil
  then show ?case by (simp add: run_def)
next
  case (Cons x evs)
  from Cons.IH[OF consistent_dispatch[OF Cons.prems]] show ?case by (simp add: run_def)
qed

lemma consistent_loaded:
  "DOMContentLoaded native pg = Some (ev, s0) \<Longrightarrow>
   consistent ev s0 \<and> hasNativeSmoothScroll ev = native"
  by (auto simp: DOMContentLoaded_def consistent_def setAriaPressed_def split: option.splits)

lemma interrupt_leaves_lock_stuck:
  assumes "consistent ev s" and "\<not> hasNativeSmoothScroll ev" and "isScrolling s"
    and "x = Touchstart \<or> (\<exists>e ta tb. x = Wheel e ta tb)"
  shows "stuck (dispatch ev s x) \<and> currentSlideIndex (dispatch ev s x) = currentSlideIndex s"
proof -
  have l: "\<forall>a \<in> set (animations s). live a \<longrightarrow> listensWheel a \<and> listensTouchstart a"
    and t: "timeouts s = []"
    using assms(1,2) by (simp_all add: consistent_def)
  from assms(4) show ?thesis
  proof
    assume "x = Touchstart"
    then show ?thesis
      using l t assms(3) by (auto simp: stuck_def cancelOnTouchstart_def)
  next
    assume "\<exists>e ta tb. x = Wheel e ta tb"
    then obtain e ta tb where x: "x = Wheel e ta tb" by blast
    show ?thesis
      using l t assms(3) unfolding x
      by (auto simp: stuck_def wheelListener_def cancelOnWheel_def)
  qed
qed

lemma lock_never_released_after_interrupt:
  assumes "DOMContentLoaded False pg = Some (ev, s0)" and "s = run ev evs s0"
    and "isScrolling s" and "x = Touchstart \<or> (\<exists>e ta tb. x = Wheel e ta tb)"
  shows "isScrolling (run ev later (dispatch ev s x))
    \<and> currentSlideIndex (run ev later (dispatch ev s x)) = currentSlideIndex s
    \<and> navigateToSlide ev i tStart tStep (run ev later (dispatch ev s x))
        = run ev later (dispatch ev s x)"
proof -
  have c: "consistent ev s0" and n: "\<not> hasNativeSmoothScroll ev"
    using consistent_loaded[OF assms(1)] by simp_all
  have "consistent ev s" unfolding assms(2) using c by (rule consistent_run)
  from interrupt_leaves_lock_stuck[OF this n assms(3,4)]
  have st: "stuck (dispatch ev s x)" and i: "currentSlideIndex (dispatch ev s x) = currentSlideIndex s"
    by simp_all
  from stuck_run[OF st, of ev later]
  have "stuck (run ev later (dispatch ev s x))"
    and "currentSlideIndex (run ev later (dispatch ev s x)) = currentSlideIndex s"
    using i by simp_all
  then show ?thesis by (simp add: stuck_def navigateToSlide_def)
qed

lemma fourAnimating_wheeled:
  "dispatch (fourEnv False) fourAnimating (Wheel \<lparr>deltaY = 100, targetChain = [Scroller]\<rparr> 100 100) =
     fourAnimating\<lparr>animations := [cancel (animations fourAnimating ! 0)]\<rparr>"
  by (simp add: wheelListener_def cancelOnWheel_def fourAnimating_def)

lemma frame_after_cancel:
  "dispatch (fourEnv False) (fourAnimating\<lparr>animations := [cancel (animations fourAnimating ! 0)]\<rparr>)
     (AnimationFrame now) =
   fourAnimating\<lparr>animations := [(cancel (animations fourAnimating ! 0))\<lparr>frameRequested := False\<rparr>]\<rparr>"
  by (simp add: animationFrame_def frameCallback_def step_def fourAnimating_def)

lemma frame_after_cancel_idle:
  "dispatch (fourEnv False)
     (fourAnimating\<lparr>animations := [(cancel (animations fourAnimating ! 0))\<lparr>frameRequested := False\<rparr>]\<rparr>)
     (AnimationFrame now) =
   fourAnimating\<lparr>animations := [(cancel (animations fourAnimating ! 0))\<lparr>frameRequested := False\<rparr>]\<rparr>"
  by (simp add: animationFrame_def frameCallback_def fourAnimating_def)

lemma click_while_locked:
  "dispatch (fourEnv False) (fourAnimating\<lparr>animations := as\<rparr>) (Click i ta tb) =
   fourAnimating\<lparr>animations := as\<rparr>"
  by (simp add: clickListener_def navigateToSlide_def fourAnimating_def)

lemma native_timer_releases_lock:
  assumes "hasNativeSmoothScroll ev" and "\<not> isScrolling s" and "0 \<le> i" and "i < slideCount ev"
    and "timeouts s = []"
  shows "isScrolling (navigateToSlide ev i tStart tStep s)
    \<and> \<not> isScrolling (timeoutFired (navigateToSlide ev i tStart tStep s))"
  using assms
  by (simp add: navigateToSlide_def smoothScroll_def setAriaPressed_def timeoutFired_def
      runCallback_def Let_def)

text \<open>
  Claim C1: whenever a scroll animation ends, by reaching its target or by being
  interrupted, \<open>isScrolling\<close> becomes false again. It does when the polyfill reaches its
  target and when the timer of the native path fires (\<open>native_timer_releases_lock\<close>). It
  does not after an interruption: \<open>cancel\<close> never calls \<open>onComplete\<close>. On the page
  with four slides, without native smooth scrolling: a click on the second indicator, a
  wheel event 100 ms later, then three frames and a click on the third indicator after six
  seconds leave the lock held and the second slide current. By
  \<open>lock_never_released_after_interrupt\<close> no later event releases it.
\<close>

theorem lock_stays_after_interrupt:
  "run (fourEnv False)
     [Click 1 0 0, Wheel \<lparr>deltaY = 100, targetChain = [Scroller]\<rparr> 100 100,
      AnimationFrame 116, AnimationFrame 900, AnimationFrame 5000, Click 2 6000 6000]
     fourState
   = fourAnimating\<lparr>animations := [(cancel (animations fourAnimating ! 0))\<lparr>frameRequested := False\<rparr>]\<rparr>
   \<and> isScrolling (run (fourEnv False)
     [Click 1 0 0, Wheel \<lparr>deltaY = 100, targetChain = [Scroller]\<rparr> 100 100,
      AnimationFrame 116, AnimationFrame 900, AnimationFrame 5000, Click 2 6000 6000]
     fourState)
   \<and> currentSlideIndex (run (fourEnv False)
     [Click 1 0 0, Wheel \<lparr>deltaY = 100, targetChain = [Scroller]\<rparr> 100 100,
      AnimationFrame 116, AnimationFrame 900, AnimationFrame 5000, Click 2 6000 6000]
     fourState) = 1"
proof -
  have r: "run (fourEnv False)
     [Click 1 0 0, Wheel \<lparr>deltaY = 100, targetChain = [Scroller]\<rparr> 100 100,
      AnimationFrame 116, AnimationFrame 900, AnimationFrame 5000, Click 2 6000 6000]
     fourState
   = fourAnimating\<lparr>animations := [(cancel (animations fourAnimating ! 0))\<lparr>frameRequested := False\<rparr>]\<rparr>"
    unfolding run_def foldl.simps fourAnimating_reached fourAnimating_wheeled frame_after_cancel
      frame_after_cancel_idle click_while_locked ..
  show ?thesis unfolding r by (simp add: fourAnimating_def)
qed

end
